theory Spec2Isabelle
  imports Main
begin

section \<open>JavaScript strings\<close>

text \<open>
  Strings are lists of characters. \<open>toLowerCase\<close> is modelled on the ASCII letters:
  \<open>A\<close> .. \<open>Z\<close> go to \<open>a\<close> .. \<open>z\<close>, every other character is kept.
\<close>

definition upperToLower :: "(char \<times> char) list" where
  "upperToLower = zip ''ABCDEFGHIJKLMNOPQRSTUVWXYZ'' ''abcdefghijklmnopqrstuvwxyz''"

definition toLowerCaseChar :: "char \<Rightarrow> char" where
  "toLowerCaseChar c = (case map_of upperToLower c of Some d \<Rightarrow> d | None \<Rightarrow> c)"

definition toLowerCase :: "string \<Rightarrow> string" where
  "toLowerCase s = map toLowerCaseChar s"

text \<open>\<open>trim\<close> removes white space at both ends; of the ASCII characters these are tab,
  line feed, vertical tab, form feed, carriage return and space.\<close>

definition isWhiteSpace :: "char \<Rightarrow> bool" where
  "isWhiteSpace c = (c \<in> set [CHR 0x09, CHR 0x0A, CHR 0x0B, CHR 0x0C, CHR 0x0D, CHR '' ''])"

definition trim :: "string \<Rightarrow> string" where
  "trim s = rev (dropWhile isWhiteSpace (rev (dropWhile isWhiteSpace s)))"

definition startsWith :: "string \<Rightarrow> string \<Rightarrow> bool" where
  "startsWith s pat = (take (length pat) s = pat)"

definition endsWith :: "string \<Rightarrow> string \<Rightarrow> bool" where
  "endsWith s pat = (length pat \<le> length s \<and> drop (length s - length pat) s = pat)"

text \<open>\<open>s.replace(pat, rep)\<close> with a string pattern: only the first occurrence of
  \<open>pat\<close> is replaced.\<close>

fun replace :: "string \<Rightarrow> string \<Rightarrow> string \<Rightarrow> string" where
  "replace [] pat rep = (if pat = [] then rep else [])"
| "replace (c # cs) pat rep =
     (if startsWith (c # cs) pat then rep @ drop (length pat) (c # cs)
      else c # replace cs pat rep)"

text \<open>\<open>s.split(sep)\<close> for a separator of one character; the result is never empty.\<close>

fun split :: "string \<Rightarrow> char \<Rightarrow> string list" where
  "split [] sep = [[]]"
| "split (c # cs) sep =
     (if c = sep then [] # split cs sep
      else (case split cs sep of x # xs \<Rightarrow> (c # x) # xs | [] \<Rightarrow> [[c]]))"

definition pop :: "'a list \<Rightarrow> 'a option" where
  "pop xs = (if xs = [] then None else Some (last xs))"

text \<open>\<open>s.slice(i, j)\<close> and \<open>s.slice(i)\<close>, of a string or an array, for indices that
  are not negative.\<close>

definition slice :: "'a list \<Rightarrow> nat \<Rightarrow> nat \<Rightarrow> 'a list" where
  "slice s i j = take (j - i) (drop i s)"

definition sliceFrom :: "'a list \<Rightarrow> nat \<Rightarrow> 'a list" where
  "sliceFrom s i = drop i s"

text \<open>\<open>xs.splice(start, deleteCount, ...items)\<close>, returning the array afterwards.\<close>

definition splice :: "'a list \<Rightarrow> nat \<Rightarrow> nat \<Rightarrow> 'a list \<Rightarrow> 'a list" where
  "splice xs start deleteCount items = take start xs @ items @ drop (start + deleteCount) xs"

section \<open>A plain object used as a dictionary\<close>

text \<open>
  \<open>titleToSlug\<close> is created by the object literal \<open>{}\<close>, so its prototype is
  \<open>Object.prototype\<close>. The model keeps the object's own properties (all written by the
  program, all strings) as a map. Reading \<open>obj[k]\<close> finds an own property first and an
  inherited one otherwise; writing \<open>obj[k] = v\<close> creates or overwrites an own property,
  except for the key \<open>__proto__\<close>, whose inherited setter ignores a string.
\<close>

type_synonym jsobj = "string \<rightharpoonup> string"

datatype jsval = Undefined | Str string | Builtin string | ObjectPrototype

definition inheritedMethods :: "string list" where
  "inheritedMethods =
     [''hasOwnProperty'', ''isPrototypeOf'', ''propertyIsEnumerable'', ''toLocaleString'',
      ''toString'', ''valueOf'', ''__defineGetter__'', ''__defineSetter__'',
      ''__lookupGetter__'', ''__lookupSetter__'']"

definition inherited :: "string \<Rightarrow> jsval" where
  "inherited k =
     (if k = ''__proto__'' then ObjectPrototype
      else if k = ''constructor'' then Builtin ''Object''
      else if k \<in> set inheritedMethods then Builtin k
      else Undefined)"

definition getProp :: "jsobj \<Rightarrow> string \<Rightarrow> jsval" where
  "getProp obj k = (case obj k of Some v \<Rightarrow> Str v | None \<Rightarrow> inherited k)"

definition setProp :: "jsobj \<Rightarrow> string \<Rightarrow> string \<Rightarrow> jsobj" where
  "setProp obj k v = (if k = ''__proto__'' then obj else obj(k \<mapsto> v))"

text \<open>Truthiness, as \<open>if (slug)\<close> tests it, and the string a template literal inserts
  (the text of a built-in function is the engine's; V8's is given).\<close>

definition truthy :: "jsval \<Rightarrow> bool" where
  "truthy v = (case v of Undefined \<Rightarrow> False | Str s \<Rightarrow> s \<noteq> [] | _ \<Rightarrow> True)"

definition toStr :: "jsval \<Rightarrow> string" where
  "toStr v =
     (case v of
        Undefined \<Rightarrow> ''undefined''
      | Str s \<Rightarrow> s
      | Builtin n \<Rightarrow> ''function '' @ n @ ''() { [native code] }''
      | ObjectPrototype \<Rightarrow> ''[object Object]'')"

section \<open>Reading history (reading-history.ts)\<close>

record ReadingHistoryItem =
  slug :: string
  title :: string
  visitedAt :: int

text \<open>
  What \<open>localStorage\<close> holds under the key \<open>reading-history\<close>, as \<open>getHistory\<close> reads it:
  nothing (or the empty string), a string \<open>JSON.parse\<close> rejects, the JSON of an array of
  history items, or the JSON of something that is not an array. \<open>JSON.stringify\<close> followed
  by \<open>JSON.parse\<close> gives the same items back, so the items themselves stand for their JSON.
\<close>

datatype stored = NoItem | Unparsable | Items "ReadingHistoryItem list" | NotAnArray

datatype historyValue = HistoryList "ReadingHistoryItem list" | HistoryOther

datatype error = TypeError

definition MAX_HISTORY_SIZE :: nat where
  "MAX_HISTORY_SIZE = 5"

text \<open>\<open>getHistory\<close>: the first argument says whether \<open>window\<close> is defined.\<close>

definition getHistory :: "bool \<Rightarrow> stored \<Rightarrow> historyValue" where
  "getHistory hasWindow st =
     (if \<not> hasWindow then HistoryList []
      else (case st of
              NoItem \<Rightarrow> HistoryList []
            | Unparsable \<Rightarrow> HistoryList []
            | Items h \<Rightarrow> HistoryList h
            | NotAnArray \<Rightarrow> HistoryOther))"

text \<open>\<open>addToHistory\<close> in the browser (it is called from an effect of a client component):
  \<open>now\<close> is the value of \<open>Date.now()\<close>; the result is the new content of the store, or the
  error raised by \<open>history.filter\<close> when the stored value is not an array.\<close>

definition addToHistory :: "string \<Rightarrow> string \<Rightarrow> int \<Rightarrow> stored \<Rightarrow> error + stored" where
  "addToHistory slug' title' now st =
     (case getHistory True st of
        HistoryOther \<Rightarrow> Inl TypeError
      | HistoryList history \<Rightarrow>
          (let filteredHistory = filter (\<lambda>item. ReadingHistoryItem.slug item \<noteq> slug') history;
               newHistory =
                 slice
                   (\<lparr>ReadingHistoryItem.slug = slug', ReadingHistoryItem.title = title',
                      visitedAt = now\<rparr> # filteredHistory)
                   0 MAX_HISTORY_SIZE
           in Inr (Items newHistory)))"

definition clearHistory :: "stored \<Rightarrow> stored" where
  "clearHistory st = NoItem"

text \<open>The stores the code itself produces: starting from an empty store, by calls of
  \<open>addToHistory\<close> that return and of \<open>clearHistory\<close>.\<close>

inductive produced :: "stored \<Rightarrow> bool" where
  empty: "produced NoItem"
| add: "produced st \<Longrightarrow> addToHistory slug' title' now st = Inr st' \<Longrightarrow> produced st'"
| clear: "produced st \<Longrightarrow> produced (clearHistory st)"

section \<open>The corpus (markdown.ts, getAllMarkdownFiles)\<close>

record FrontMatter =
  title :: "string option"
  description :: "string option"
  tags :: "string list option"
  date :: "string option"

record NoteData =
  slug :: string
  path :: string
  category :: string
  title :: string
  description :: string
  tags :: "string list"
  date :: string

text \<open>The content directory as \<open>readdirSync\<close>, \<open>statSync\<close> and \<open>matter\<close> show it: a file
  with its name and front matter, or a directory with its name and items.\<close>

datatype fsItem = File string FrontMatter | Directory string "fsItem list"

text \<open>\<open>x || d\<close> for an optional string: the default when \<open>x\<close> is undefined or empty.\<close>

definition orElse :: "string option \<Rightarrow> string \<Rightarrow> string" where
  "orElse x d = (case x of None \<Rightarrow> d | Some s \<Rightarrow> if s = [] then d else s)"

definition itemRelativePath :: "string \<Rightarrow> string \<Rightarrow> string" where
  "itemRelativePath relativePath item =
     (if relativePath \<noteq> [] then relativePath @ ''/'' @ item else item)"

text \<open>The record \<open>scanDirectory\<close> pushes for the markdown file \<open>item\<close> of the directory
  \<open>relativePath\<close>, with front matter \<open>data\<close>.\<close>

definition scanFile :: "string \<Rightarrow> string \<Rightarrow> FrontMatter \<Rightarrow> NoteData" where
  "scanFile relativePath item data =
     (let slug' = replace (replace (itemRelativePath relativePath item) ''.md'' '''') ''/'' ''-''
      in \<lparr>slug = slug',
          path = itemRelativePath relativePath item,
          category = (if relativePath \<noteq> [] then relativePath else ''general''),
          title = orElse (FrontMatter.title data) slug',
          description = orElse (FrontMatter.description data) '''',
          tags = (case FrontMatter.tags data of None \<Rightarrow> [] | Some ts \<Rightarrow> ts),
          date = orElse (FrontMatter.date data) ''''\<rparr>)"

fun scanDirectory :: "fsItem list \<Rightarrow> string \<Rightarrow> NoteData list" where
  "scanDirectory [] relativePath = []"
| "scanDirectory (File item data # items) relativePath =
     (if endsWith item ''.md'' then [scanFile relativePath item data] else [])
       @ scanDirectory items relativePath"
| "scanDirectory (Directory item sub # items) relativePath =
     scanDirectory sub (itemRelativePath relativePath item) @ scanDirectory items relativePath"

definition getAllMarkdownFiles :: "fsItem list \<Rightarrow> NoteData list" where
  "getAllMarkdownFiles contentDir = scanDirectory contentDir ''''"

section \<open>The alias index (markdown.ts, getTitleToSlugMap)\<close>

text \<open>The body of the \<open>forEach\<close> callback: the assignments one file makes, in order.\<close>

definition registerFile :: "jsobj \<Rightarrow> NoteData \<Rightarrow> jsobj" where
  "registerFile titleToSlug file =
     (let t1 = setProp titleToSlug (toLowerCase (title file)) (slug file);
          t2 = setProp t1 (slug file) (slug file);
          originalPath = replace (path file) ''.md'' '''';
          t3 = setProp t2 (toLowerCase originalPath) (slug file)
      in (case map_option (\<lambda>seg. replace seg ''.md'' '''') (pop (split (path file) CHR ''/'')) of
            None \<Rightarrow> t3
          | Some filename \<Rightarrow>
              if filename \<noteq> [] then setProp t3 (toLowerCase filename) (slug file) else t3))"

text \<open>\<open>getTitleToSlugMap\<close>, with the list \<open>getAllMarkdownFiles()\<close> returns as its argument.\<close>

definition getTitleToSlugMap :: "NoteData list \<Rightarrow> jsobj" where
  "getTitleToSlugMap files = foldl registerFile Map.empty files"

section \<open>The pattern for internal links\<close>

text \<open>
  The regular expression is \<^verbatim>\<open>/\[\[([^\]]+)\]\]/g\<close>. A match at the start of \<open>s\<close>: two
  opening brackets, the longest run of characters other than \<open>]\<close> (at least one; a
  shorter run cannot be followed by \<open>]\<close>), two closing brackets. The result is the
  matched text and the capture group.
\<close>

definition matchAt :: "string \<Rightarrow> (string \<times> string) option" where
  "matchAt s =
     (if startsWith s ''[['' then
        (let linkText = takeWhile (\<lambda>c. c \<noteq> CHR '']'') (drop 2 s);
             rest = dropWhile (\<lambda>c. c \<noteq> CHR '']'') (drop 2 s)
         in if linkText \<noteq> [] \<and> startsWith rest '']]''
            then Some (''[['' @ linkText @ '']]'', linkText) else None)
      else None)"

text \<open>\<open>linkRegex.exec(text)\<close> with the regular expression's \<open>lastIndex\<close> as an argument:
  the first match at or after \<open>lastIndex\<close>, as its index, its text and its group.\<close>

function exec :: "string \<Rightarrow> nat \<Rightarrow> (nat \<times> string \<times> string) option" where
  "exec text lastIndex =
     (if length text < lastIndex then None
      else (case matchAt (drop lastIndex text) of
              Some (fullMatch, linkText) \<Rightarrow> Some (lastIndex, fullMatch, linkText)
            | None \<Rightarrow> exec text (Suc lastIndex)))"
  by pat_completeness auto
termination
  by (relation "measure (\<lambda>(text, lastIndex). Suc (length text) - lastIndex)") auto

declare exec.simps [simp del]

text \<open>\<open>linkRegex.test(text)\<close> on the fresh regular expression (\<open>lastIndex\<close> is 0).\<close>

definition test :: "string \<Rightarrow> bool" where
  "test text = (exec text 0 \<noteq> None)"

lemma matchAt_Some:
  assumes "matchAt s = Some (fullMatch, linkText)"
  shows "fullMatch = ''[['' @ linkText @ '']]''" and "linkText \<noteq> []"
    and "CHR '']'' \<notin> set linkText" and "take (length fullMatch) s = fullMatch"
proof -
  let ?p = "\<lambda>c. c \<noteq> CHR '']''"
  from assms have sw: "startsWith s ''[[''"
    by (auto simp: matchAt_def split: if_splits)
  from assms sw have lt: "linkText = takeWhile ?p (drop 2 s)"
    and ne: "linkText \<noteq> []"
    and rest: "startsWith (dropWhile ?p (drop 2 s)) '']]''"
    and fm: "fullMatch = ''[['' @ linkText @ '']]''"
    by (auto simp: matchAt_def Let_def split: if_splits)
  show "fullMatch = ''[['' @ linkText @ '']]''" by (rule fm)
  show "linkText \<noteq> []" by (rule ne)
  show "CHR '']'' \<notin> set linkText"
    unfolding lt using set_takeWhileD by fastforce
  have s: "s = ''[['' @ drop 2 s"
    using sw by (metis append_take_drop_id length_Cons list.size(3) numeral_2_eq_2 startsWith_def)
  have d: "drop 2 s = linkText @ dropWhile ?p (drop 2 s)"
    unfolding lt by simp
  from rest have r: "dropWhile ?p (drop 2 s) = '']]'' @ drop 2 (dropWhile ?p (drop 2 s))"
    by (metis append_take_drop_id length_Cons list.size(3) numeral_2_eq_2 startsWith_def)
  have "s = (''[['' @ linkText @ '']]'') @ drop 2 (dropWhile ?p (drop 2 s))"
    using s d r by (metis append.assoc)
  then have "take (length fullMatch) s = fullMatch"
    unfolding fm by (metis append_eq_conv_conj)
  then show "take (length fullMatch) s = fullMatch" .
qed

lemma exec_Some:
  "exec s lastIndex = Some (startIndex, fullMatch, linkText) \<Longrightarrow>
     lastIndex \<le> startIndex \<and> startIndex \<le> length s \<and>
     matchAt (drop startIndex s) = Some (fullMatch, linkText) \<and>
     (\<forall>j. lastIndex \<le> j \<and> j < startIndex \<longrightarrow> matchAt (drop j s) = None)"
proof (induction s lastIndex rule: exec.induct)
  case (1 s lastIndex)
  show ?case
  proof (cases "matchAt (drop lastIndex s)")
    case None
    with "1.prems" have le: "\<not> length s < lastIndex"
      and rec: "exec s (Suc lastIndex) = Some (startIndex, fullMatch, linkText)"
      by (auto simp: exec.simps [of s lastIndex] split: if_splits)
    from "1.IH" [OF le None rec] None show ?thesis
      by (auto simp: le_Suc_eq less_Suc_eq_le dest: le_neq_implies_less)
  next
    case (Some m)
    with "1.prems" show ?thesis
      by (cases m) (auto simp: exec.simps [of s lastIndex] split: if_splits)
  qed
qed

lemma exec_bounds:
  assumes "exec text lastIndex = Some (startIndex, fullMatch, linkText)"
  shows "lastIndex \<le> startIndex" and "startIndex + length fullMatch \<le> length text"
    and "0 < length fullMatch"
proof -
  from exec_Some [OF assms] have le: "lastIndex \<le> startIndex"
    and m: "matchAt (drop startIndex text) = Some (fullMatch, linkText)" by auto
  show "lastIndex \<le> startIndex" by (rule le)
  from matchAt_Some(1) [OF m] show "0 < length fullMatch" by simp
  from exec_Some [OF assms] have len: "startIndex \<le> length text" by simp
  from arg_cong [OF matchAt_Some(4) [OF m], of length]
  have "min (length fullMatch) (length text - startIndex) = length fullMatch" by simp
  with len show "startIndex + length fullMatch \<le> length text" by arith
qed

lemma exec_decreases:
  assumes "exec text lastIndex = Some (startIndex, fullMatch, linkText)"
  shows "length text - (startIndex + length fullMatch) < length text - lastIndex"
  using exec_bounds [OF assms] by arith

section \<open>The remark plugin (markdown.ts, remarkInternalLinks)\<close>

text \<open>The nodes of the document tree the plugin reads and writes: a text node with its
  value and its optional \<open>data\<close> (\<open>hName\<close> and the class name of \<open>hProperties\<close>), a link
  with its address and children, and any other parent node with its type and children.\<close>

datatype nodeData = NodeData (hName: string) (className: string)

datatype node =
    Text string "nodeData option"
  | Link string "node list"
  | Parent string "node list"

text \<open>The node pushed for one match (the branch on \<open>slug\<close> in the loop body).\<close>

definition createLink :: "jsobj \<Rightarrow> string \<Rightarrow> node" where
  "createLink titleToSlug linkText =
     (let slug' = getProp titleToSlug (toLowerCase linkText)
      in if truthy slug' then Link (''/'' @ toStr slug') [Text linkText None]
         else Text linkText (Some (NodeData ''span'' ''text-red-500 font-mono'')))"

text \<open>The \<open>while\<close> loop over the matches, from the state \<open>(lastIndex, newNodes)\<close> to the state
  it ends in. The regular expression's own \<open>lastIndex\<close> is reset to 0 before the loop and
  is the variable \<open>lastIndex\<close> after every match.\<close>

function whileLoop :: "jsobj \<Rightarrow> string \<Rightarrow> nat \<Rightarrow> node list \<Rightarrow> nat \<times> node list" where
  "whileLoop titleToSlug text lastIndex newNodes =
     (case exec text lastIndex of
        None \<Rightarrow> (lastIndex, newNodes)
      | Some (startIndex, fullMatch, linkText) \<Rightarrow>
          whileLoop titleToSlug text (startIndex + length fullMatch)
            ((if lastIndex < startIndex
              then newNodes @ [Text (slice text lastIndex startIndex) None] else newNodes)
             @ [createLink titleToSlug linkText]))"
  by pat_completeness auto
termination
  by (relation "measure (\<lambda>(titleToSlug, text, lastIndex, newNodes). length text - lastIndex)") (auto simp: exec_decreases)

declare whileLoop.simps [simp del]

text \<open>The replacement sequence of a text node: the loop from \<open>(0, [])\<close>, then the text
  that remains.\<close>

definition newNodesOf :: "jsobj \<Rightarrow> string \<Rightarrow> node list" where
  "newNodesOf titleToSlug text =
     (case whileLoop titleToSlug text 0 [] of
        (lastIndex, newNodes) \<Rightarrow>
          if lastIndex < length text
          then newNodes @ [Text (sliceFrom text lastIndex) None] else newNodes)"

text \<open>The visitor, called for a text node with value \<open>text\<close> that is child \<open>index\<close> of a
  parent with the given children (\<open>None\<close>: no parent, no index). The result is the
  parent's children afterwards. The traversal is the library's \<open>visit\<close>: it calls the
  visitor for every text node of the tree, with the node's index and parent, and goes
  on with the next index of the parent's children as they are after the call.\<close>

definition visitor :: "jsobj \<Rightarrow> string \<Rightarrow> nat option \<Rightarrow> node list option \<Rightarrow> node list option" where
  "visitor titleToSlug text index parent =
     (if \<not> test text then parent
      else (case (parent, index) of
              (Some children, Some i) \<Rightarrow> Some (splice children i 1 (newNodesOf titleToSlug text))
            | _ \<Rightarrow> parent))"

section \<open>The page renderer (app/[slug]/page.tsx, NotePage)\<close>

text \<open>The callback given to \<open>content.replace\<close>.\<close>

definition replacer :: "jsobj \<Rightarrow> string \<Rightarrow> string \<Rightarrow> string" where
  \<open>replacer titleToSlug match linkText =
     (let slug' = getProp titleToSlug (toLowerCase linkText)
      in if truthy slug' then ''['' @ linkText @ ''](/'' @ toStr slug' @ '')''
         else ''<span class="text-red-500 font-mono">'' @ linkText @ ''</span>'')\<close>

text \<open>\<open>content.replace(regex, callback)\<close> for the global pattern: every match, left to
  right, is replaced by the callback's result; \<open>position\<close> is where the text not yet copied
  starts and \<open>result\<close> what has been produced.\<close>

function replaceMatches ::
  "(string \<Rightarrow> string \<Rightarrow> string) \<Rightarrow> string \<Rightarrow> nat \<Rightarrow> string \<Rightarrow> string" where
  "replaceMatches callback text position result =
     (case exec text position of
        None \<Rightarrow> result @ sliceFrom text position
      | Some (startIndex, fullMatch, linkText) \<Rightarrow>
          replaceMatches callback text (startIndex + length fullMatch)
            (result @ slice text position startIndex @ callback fullMatch linkText))"
  by pat_completeness auto
termination
  by (relation "measure (\<lambda>(callback, text, position, result). length text - position)") (auto simp: exec_decreases)

declare replaceMatches.simps [simp del]

definition processedContent :: "jsobj \<Rightarrow> string \<Rightarrow> string" where
  "processedContent titleToSlug content = replaceMatches (replacer titleToSlug) content 0 []"

section \<open>Notions the properties are stated with\<close>

text \<open>The text a node shows: the value of a text node, the text of the children of any
  other node.\<close>

fun textContent :: "node \<Rightarrow> string" where
  "textContent (Text v d) = v"
| "textContent (Link u cs) = concat (map textContent cs)"
| "textContent (Parent t cs) = concat (map textContent cs)"

text \<open>The values of the text nodes in a node, the ones a later visit would be called for.\<close>

fun textValues :: "node \<Rightarrow> string list" where
  "textValues (Text v d) = [v]"
| "textValues (Link u cs) = concat (map textValues cs)"
| "textValues (Parent t cs) = concat (map textValues cs)"

text \<open>A replacement node stands for a match: a link, or a text node that carries \<open>data\<close>.
  A literal node is a text node without \<open>data\<close>.\<close>

definition isReplacement :: "node \<Rightarrow> bool" where
  "isReplacement n = (case n of Text v d \<Rightarrow> d \<noteq> None | Link u cs \<Rightarrow> True | Parent t cs \<Rightarrow> False)"

definition isLiteral :: "node \<Rightarrow> bool" where
  "isLiteral n = (case n of Text v d \<Rightarrow> d = None | Link u cs \<Rightarrow> False | Parent t cs \<Rightarrow> False)"

text \<open>The source text a node of a replacement sequence stands for: a replacement node's
  text between the brackets of the token, a literal node's text as it is.\<close>

definition rawText :: "node \<Rightarrow> string" where
  "rawText n = (if isReplacement n then ''[['' @ textContent n @ '']]'' else textContent n)"

text \<open>The address a node links to, if it is a link.\<close>

definition linkTarget :: "node \<Rightarrow> string option" where
  "linkTarget n = (case n of Link u cs \<Rightarrow> Some u | _ \<Rightarrow> None)"

text \<open>An occurrence of the pattern in \<open>text\<close>: at index \<open>i\<close> two opening brackets, then
  \<open>n > 0\<close> characters other than \<open>]\<close>, then two closing brackets.\<close>

definition occursAt :: "string \<Rightarrow> nat \<Rightarrow> nat \<Rightarrow> bool" where
  "occursAt text i n =
     (0 < n \<and> i + n + 4 \<le> length text
      \<and> slice text i (i + 2) = ''[[''
      \<and> CHR '']'' \<notin> set (slice text (i + 2) (i + 2 + n))
      \<and> slice text (i + 2 + n) (i + 4 + n) = '']]'')"

definition hasOccurrence :: "string \<Rightarrow> bool" where
  "hasOccurrence text = (\<exists>i \<in> {0..<length text}. \<exists>n \<in> {0..<length text}. occursAt text i n)"

text \<open>The inner texts of the occurrences found by scanning \<open>s\<close> from the left, each match
  starting where the previous one ended.\<close>

function occurrences :: "string \<Rightarrow> string list" where
  "occurrences s =
     (if s = [] then []
      else (case matchAt s of
              Some (fullMatch, linkText) \<Rightarrow> linkText # occurrences (drop (length fullMatch) s)
            | None \<Rightarrow> occurrences (tl s)))"
  by pat_completeness auto
termination
  by (relation "measure length") (auto dest: matchAt_Some(1))

declare occurrences.simps [simp del]

text \<open>How the page renderer writes what the plugin expresses as a node: literal text as
  it is, a link in markdown syntax, a text node with \<open>data\<close> as the HTML element it names.\<close>

definition render :: "node \<Rightarrow> string" where
  \<open>render n =
     (case n of
        Text v None \<Rightarrow> v
      | Text v (Some d) \<Rightarrow>
          ''<'' @ hName d @ '' class="'' @ className d @ ''">'' @ v @ ''</'' @ hName d @ ''>''
      | Link u cs \<Rightarrow> ''['' @ concat (map textContent cs) @ ''](''  @ u @ '')''
      | Parent t cs \<Rightarrow> concat (map textContent cs))\<close>

text \<open>What the plugin's replacement sequence promises of a node: it is a replacement
  node, or a literal node whose text is not empty and holds no occurrence of the
  pattern.\<close>

definition literalOk :: "node \<Rightarrow> bool" where
  "literalOk n =
     (isReplacement n
      \<or> isLiteral n \<and> textContent n \<noteq> [] \<and> \<not> hasOccurrence (textContent n))"

text \<open>The keys one file registers, in the order of the assignments.\<close>

definition registeredKeys :: "NoteData \<Rightarrow> string list" where
  "registeredKeys file =
     [toLowerCase (title file), slug file, toLowerCase (replace (path file) ''.md'' '''')]
     @ (case map_option (\<lambda>seg. replace seg ''.md'' '''') (pop (split (path file) CHR ''/'')) of
          None \<Rightarrow> []
        | Some filename \<Rightarrow> if filename \<noteq> [] then [toLowerCase filename] else [])"

text \<open>\<open>s.indexOf(pat)\<close>: where \<open>pat\<close> first occurs in \<open>s\<close>. A path has \<open>.md\<close> as its
  extension only when the first occurrence of \<open>.md\<close> is its last three characters.\<close>

fun indexOf :: "string \<Rightarrow> string \<Rightarrow> nat option" where
  "indexOf [] pat = (if pat = [] then Some 0 else None)"
| "indexOf (c # cs) pat =
     (if startsWith (c # cs) pat then Some 0 else map_option Suc (indexOf cs pat))"

definition extensionOnly :: "string \<Rightarrow> bool" where
  "extensionOnly p = (indexOf p ''.md'' = Some (length p - 3))"

text \<open>A path without its three-character extension, and the part of a path after its
  last \<open>/\<close>.\<close>

definition stripExtension :: "string \<Rightarrow> string" where
  "stripExtension p = take (length p - 3) p"

fun finalSegment :: "string \<Rightarrow> string" where
  "finalSegment [] = []"
| "finalSegment (c # cs) = (if CHR ''/'' \<in> set (c # cs) then finalSegment cs else c # cs)"

text \<open>The aliases of a file, lower-cased and not trimmed: the title, the id, the path
  without extension, and the final segment without extension when that is not empty.\<close>

definition aliases :: "NoteData \<Rightarrow> string list" where
  "aliases file =
     [toLowerCase (title file), toLowerCase (slug file),
      toLowerCase (stripExtension (path file))]
     @ (if stripExtension (finalSegment (path file)) \<noteq> []
        then [toLowerCase (stripExtension (finalSegment (path file)))] else [])"

text \<open>The aliases of a file, lower-cased and trimmed: the title, the id, the path without
  extension and the final segment without extension.\<close>

definition specAliases :: "NoteData \<Rightarrow> string list" where
  "specAliases file =
     map (\<lambda>a. trim (toLowerCase a))
       [title file, slug file, stripExtension (path file), stripExtension (finalSegment (path file))]"

section \<open>Properties of the pattern\<close>

lemma matchAt_token:
  assumes "body \<noteq> []" and "CHR '']'' \<notin> set body"
  shows "matchAt (''[['' @ body @ '']]'' @ rest) = Some (''[['' @ body @ '']]'', body)"
proof -
  let ?p = "\<lambda>c. c \<noteq> CHR '']''"
  have all: "\<And>x. x \<in> set body \<Longrightarrow> ?p x"
    using assms(2) by auto
  have tw: "takeWhile ?p (body @ CHR '']'' # CHR '']'' # rest) = body"
    using all by (simp add: takeWhile_append2)
  have dw: "dropWhile ?p (body @ CHR '']'' # CHR '']'' # rest) = CHR '']'' # CHR '']'' # rest"
    using all by (simp add: dropWhile_append2)
  show ?thesis
    using assms(1) by (simp add: matchAt_def startsWith_def Let_def tw dw)
qed

lemma matchAt_decompose:
  assumes "matchAt s = Some (fullMatch, linkText)"
  shows "s = fullMatch @ drop (length fullMatch) s"
  using matchAt_Some(4) [OF assms] by (metis append_take_drop_id)

lemma exec_None:
  "exec s lastIndex = None \<Longrightarrow> lastIndex \<le> j \<Longrightarrow> j \<le> length s \<Longrightarrow> matchAt (drop j s) = None"
proof (induction s lastIndex rule: exec.induct)
  case (1 s lastIndex)
  from "1.prems" have le: "\<not> length s < lastIndex" by simp
  from "1.prems"(1) le have here: "matchAt (drop lastIndex s) = None"
    by (auto simp: exec.simps [of s lastIndex] split: option.splits)
  with "1.prems"(1) le have rec: "exec s (Suc lastIndex) = None"
    by (simp add: exec.simps [of s lastIndex])
  show ?case
  proof (cases "j = lastIndex")
    case True
    with here show ?thesis by simp
  next
    case False
    with "1.prems" have "Suc lastIndex \<le> j" by simp
    from "1.IH" [OF le here rec this "1.prems"(3)] show ?thesis .
  qed
qed

lemma exec_first:
  assumes "lastIndex \<le> j" "j \<le> length s" "matchAt (drop j s) = Some (fullMatch, linkText)"
    and "\<And>k. lastIndex \<le> k \<Longrightarrow> k < j \<Longrightarrow> matchAt (drop k s) = None"
  shows "exec s lastIndex = Some (j, fullMatch, linkText)"
  using assms
proof (induction s lastIndex rule: exec.induct)
  case (1 s lastIndex)
  show ?case
  proof (cases "j = lastIndex")
    case True
    with "1.prems" show ?thesis by (simp add: exec.simps [of s lastIndex])
  next
    case False
    with "1.prems" have lt: "lastIndex < j" by simp
    then have here: "matchAt (drop lastIndex s) = None" using "1.prems"(4) by simp
    from lt "1.prems"(2) have le: "\<not> length s < lastIndex" by simp
    have "exec s (Suc lastIndex) = Some (j, fullMatch, linkText)"
      using "1.IH" [OF le here] lt "1.prems" by simp
    with here le show ?thesis by (simp add: exec.simps [of s lastIndex])
  qed
qed


lemma drop_drop_eq: "a + b = c \<Longrightarrow> drop a (drop b s) = drop c s"
  by auto

lemma occursAt_drop:
  assumes "occursAt s i n"
  shows "drop i s = ''[['' @ slice s (i + 2) (i + 2 + n) @ '']]'' @ drop (i + 4 + n) s"
proof -
  from assms have a: "take 2 (drop i s) = ''[[''"
    and c: "take 2 (drop (i + 2 + n) s) = '']]''"
    by (simp_all add: occursAt_def slice_def)
  have e1: "drop i s = take 2 (drop i s) @ drop 2 (drop i s)"
    by (rule append_take_drop_id [symmetric])
  have e2: "drop (i + 2) s = take n (drop (i + 2) s) @ drop n (drop (i + 2) s)"
    by (rule append_take_drop_id [symmetric])
  have e3: "drop (i + 2 + n) s = take 2 (drop (i + 2 + n) s) @ drop 2 (drop (i + 2 + n) s)"
    by (rule append_take_drop_id [symmetric])
  have a1: "drop 2 (drop i s) = drop (i + 2) s" by (rule drop_drop_eq) arith
  have a2: "drop n (drop (i + 2) s) = drop (i + 2 + n) s" by (rule drop_drop_eq) arith
  have a3: "drop 2 (drop (i + 2 + n) s) = drop (i + 4 + n) s" by (rule drop_drop_eq) arith
  have "drop i s = ''[['' @ take n (drop (i + 2) s) @ '']]'' @ drop (i + 4 + n) s"
    using e1 e2 e3 unfolding a1 a2 a3 a c by simp
  then show ?thesis
    by (simp add: slice_def)
qed

lemma occursAt_matchAt:
  assumes "occursAt s i n"
  shows "matchAt (drop i s) =
           Some (''[['' @ slice s (i + 2) (i + 2 + n) @ '']]'', slice s (i + 2) (i + 2 + n))"
proof -
  from assms have "i + n + 4 \<le> length s" by (simp add: occursAt_def)
  then have "n \<le> length s - (i + 2)" by arith
  then have "length (take n (drop (i + 2) s)) = n"
    by (simp only: length_take length_drop min_absorb2)
  then have "length (slice s (i + 2) (i + 2 + n)) = n"
    by (simp add: slice_def)
  with assms have ne: "slice s (i + 2) (i + 2 + n) \<noteq> []"
    by (auto simp: occursAt_def)
  from assms have nb: "CHR '']'' \<notin> set (slice s (i + 2) (i + 2 + n))"
    by (simp add: occursAt_def)
  show ?thesis
    unfolding occursAt_drop [OF assms] by (rule matchAt_token [OF ne nb])
qed

lemma matchAt_occursAt:
  assumes "j \<le> length s" and "matchAt (drop j s) = Some (fullMatch, linkText)"
  shows "occursAt s j (length linkText)"
    and "slice s (j + 2) (j + 2 + length linkText) = linkText"
proof -
  let ?n = "length linkText"
  from matchAt_decompose [OF assms(2)] matchAt_Some(1) [OF assms(2)]
  have d: "drop j s = ''[['' @ linkText @ '']]'' @ drop (length fullMatch) (drop j s)"
    by simp
  from arg_cong [OF d, of length] assms(1)
  have len: "j + ?n + 4 \<le> length s" by simp
  have d2: "drop (j + 2) s = linkText @ '']]'' @ drop (length fullMatch) (drop j s)"
    using arg_cong [OF d, of "drop 2"] by (simp add: add.commute)
  have d3: "drop (j + 2 + ?n) s = '']]'' @ drop (length fullMatch) (drop j s)"
    using arg_cong [OF d2, of "drop ?n"] by (simp add: add.commute add.left_commute)
  have s1: "slice s j (j + 2) = ''[[''"
    unfolding slice_def using arg_cong [OF d, of "take 2"] by simp
  have s2: "slice s (j + 2) (j + 2 + ?n) = linkText"
    unfolding slice_def using arg_cong [OF d2, of "take ?n"] by simp
  have s3: "slice s (j + 2 + ?n) (j + 4 + ?n) = '']]''"
    unfolding slice_def using arg_cong [OF d3, of "take 2"] by simp
  show "slice s (j + 2) (j + 2 + ?n) = linkText" by (rule s2)
  show "occursAt s j ?n"
    unfolding occursAt_def s1 s2 s3
    using len matchAt_Some(2,3) [OF assms(2)] by simp
qed

lemma test_iff_hasOccurrence: "test s = hasOccurrence s"
proof
  assume "test s"
  then obtain j fullMatch linkText where e: "exec s 0 = Some (j, fullMatch, linkText)"
    by (auto simp: test_def)
  from exec_Some [OF e] have j: "j \<le> length s"
    and m: "matchAt (drop j s) = Some (fullMatch, linkText)" by auto
  from matchAt_occursAt(1) [OF j m] have o: "occursAt s j (length linkText)" .
  then have "j < length s" "length linkText < length s"
    by (auto simp: occursAt_def)
  then have "j \<in> {0..<length s}" "length linkText \<in> {0..<length s}"
    by simp_all
  with o show "hasOccurrence s"
    unfolding hasOccurrence_def by blast
next
  assume "hasOccurrence s"
  then obtain i n where o: "occursAt s i n" and i: "i < length s"
    unfolding hasOccurrence_def by auto
  from occursAt_matchAt [OF o] have m: "matchAt (drop i s) \<noteq> None" by simp
  show "test s"
    unfolding test_def
  proof
    assume "exec s 0 = None"
    from exec_None [OF this, of i] i m show False by simp
  qed
qed

section \<open>Properties of the scanning loops\<close>

lemma scan_induct [case_names None Some]:
  assumes "\<And>i. exec s i = None \<Longrightarrow> P i"
    and "\<And>i j fullMatch linkText.
           exec s i = Some (j, fullMatch, linkText) \<Longrightarrow> P (j + length fullMatch) \<Longrightarrow> P i"
  shows "P i"
proof (induction "length s - i" arbitrary: i rule: less_induct)
  case less
  show ?case
  proof (cases "exec s i")
    case None
    then show ?thesis by (rule assms(1))
  next
    case (Some m)
    obtain j f c where "m = (j, f, c)" by (cases m)
    with Some have e: "exec s i = Some (j, f, c)" by simp
    from exec_decreases [OF e] have "length s - (j + length f) < length s - i" .
    from less [OF this] have "P (j + length f)" .
    with e show ?thesis by (rule assms(2))
  qed
qed

lemma whileLoop_None:
  "exec s i = None \<Longrightarrow> whileLoop idx s i acc = (i, acc)"
  by (simp add: whileLoop.simps)

lemma whileLoop_Some:
  "exec s i = Some (j, f, c) \<Longrightarrow>
   whileLoop idx s i acc =
     whileLoop idx s (j + length f)
       ((if i < j then acc @ [Text (slice s i j) None] else acc) @ [createLink idx c])"
  by (subst whileLoop.simps) simp

lemma replaceMatches_None:
  "exec s i = None \<Longrightarrow> replaceMatches cb s i r = r @ drop i s"
  by (simp add: replaceMatches.simps sliceFrom_def)

lemma replaceMatches_Some:
  "exec s i = Some (j, f, c) \<Longrightarrow>
   replaceMatches cb s i r = replaceMatches cb s (j + length f) (r @ slice s i j @ cb f c)"
  by (subst replaceMatches.simps) simp

lemma createLink_cases:
  "createLink idx c = Link (''/'' @ toStr (getProp idx (toLowerCase c))) [Text c None]
     \<and> truthy (getProp idx (toLowerCase c))
   \<or> createLink idx c = Text c (Some (NodeData ''span'' ''text-red-500 font-mono''))
     \<and> \<not> truthy (getProp idx (toLowerCase c))"
  by (simp add: createLink_def Let_def)

lemma textContent_createLink [simp]: "textContent (createLink idx c) = c"
  by (simp add: createLink_def Let_def)

lemma isReplacement_createLink [simp]: "isReplacement (createLink idx c)"
  by (simp add: createLink_def Let_def isReplacement_def)

lemma isLiteral_createLink [simp]: "\<not> isLiteral (createLink idx c)"
  by (simp add: createLink_def Let_def isLiteral_def)

lemma rawText_createLink [simp]: "rawText (createLink idx c) = ''[['' @ c @ '']]''"
  by (simp add: rawText_def)

lemma rawText_literal [simp]: "rawText (Text v None) = v"
  by (simp add: rawText_def isReplacement_def)

lemma render_createLink: "render (createLink idx c) = replacer idx m c"
  by (simp add: createLink_def replacer_def render_def Let_def)

lemma exec_split:
  assumes "exec s i = Some (j, f, c)"
  shows "drop i s = slice s i j @ f @ drop (j + length f) s"
proof -
  from exec_Some [OF assms] have le: "i \<le> j"
    and m: "matchAt (drop j s) = Some (f, c)" by auto
  have "drop i s = take (j - i) (drop i s) @ drop (j - i) (drop i s)"
    by (rule append_take_drop_id [symmetric])
  moreover have "drop (j - i) (drop i s) = drop j s"
    using le by (intro drop_drop_eq) arith
  moreover have "drop j s = f @ drop (length f) (drop j s)"
    by (rule matchAt_decompose [OF m])
  moreover have "drop (length f) (drop j s) = drop (j + length f) s"
    by (intro drop_drop_eq) arith
  ultimately show ?thesis
    by (simp add: slice_def)
qed

lemma whileLoop_rawText:
  "whileLoop idx s i acc = (li, ns) \<Longrightarrow>
   concat (map rawText ns) @ drop li s = concat (map rawText acc) @ drop i s"
proof (induction i arbitrary: acc rule: scan_induct [of s])
  case (None i)
  then show ?case by (simp add: whileLoop_None)
next
  case (Some i j f c)
  let ?acc = "(if i < j then acc @ [Text (slice s i j) None] else acc) @ [createLink idx c]"
  from Some.prems have "whileLoop idx s (j + length f) ?acc = (li, ns)"
    by (simp only: whileLoop_Some [OF Some.hyps])
  from Some.IH [OF this]
  have "concat (map rawText ns) @ drop li s =
          concat (map rawText ?acc) @ drop (j + length f) s" .
  moreover from exec_Some [OF Some.hyps] have "i \<le> j" by simp
  then have "concat (map rawText ?acc) = concat (map rawText acc) @ slice s i j @ ''[['' @ c @ '']]''"
    by (auto simp: slice_def)
  moreover from exec_Some [OF Some.hyps] have "matchAt (drop j s) = Some (f, c)" by simp
  from matchAt_Some(1) [OF this] have "f = ''[['' @ c @ '']]''" .
  ultimately show ?case
    using exec_split [OF Some.hyps] by simp
qed

lemma whileLoop_lastIndex:
  "whileLoop idx s i acc = (li, ns) \<Longrightarrow> i \<le> li \<and> exec s li = None"
proof (induction i arbitrary: acc rule: scan_induct [of s])
  case (None i)
  then show ?case by (simp add: whileLoop_None)
next
  case (Some i j f c)
  let ?acc = "(if i < j then acc @ [Text (slice s i j) None] else acc) @ [createLink idx c]"
  from Some.prems have "whileLoop idx s (j + length f) ?acc = (li, ns)"
    by (simp only: whileLoop_Some [OF Some.hyps])
  from Some.IH [OF this] exec_bounds(1) [OF Some.hyps] show ?case by simp
qed

lemma newNodesOf_rawText: "concat (map rawText (newNodesOf idx s)) = s"
proof -
  obtain li ns where w: "whileLoop idx s 0 [] = (li, ns)"
    by (cases "whileLoop idx s 0 []")
  from whileLoop_rawText [OF w] have r: "concat (map rawText ns) @ drop li s = s" by simp
  show ?thesis
  proof (cases "li < length s")
    case True
    with w r show ?thesis by (simp add: newNodesOf_def sliceFrom_def)
  next
    case False
    with w r show ?thesis by (simp add: newNodesOf_def)
  qed
qed

lemma isReplacement_literal [simp]: "\<not> isReplacement (Text v None)"
  by (simp add: isReplacement_def)

lemma isLiteral_literal [simp]: "isLiteral (Text v None)"
  by (simp add: isLiteral_def)

lemma render_literal [simp]: "render (Text v None) = v"
  by (simp add: render_def)

lemma occurrences_Nil [simp]: "occurrences [] = []"
  by (simp add: occurrences.simps)

lemma occurrences_skip:
  assumes "\<And>k. i \<le> k \<Longrightarrow> k < j \<Longrightarrow> matchAt (drop k s) = None"
    and "i \<le> j" and "j \<le> length s"
  shows "occurrences (drop i s) = occurrences (drop j s)"
  using assms
proof (induction "j - i" arbitrary: i)
  case 0
  then show ?case by simp
next
  case (Suc d)
  then have lt: "i < j" by simp
  with Suc.prems have ne: "drop i s \<noteq> []" by simp
  from Suc.prems(1) [of i] lt have "matchAt (drop i s) = None" by simp
  with ne have "occurrences (drop i s) = occurrences (tl (drop i s))"
    by (subst occurrences.simps) simp
  also have "tl (drop i s) = drop (Suc i) s"
    by (simp add: drop_Suc tl_drop)
  also have "occurrences (drop (Suc i) s) = occurrences (drop j s)"
  proof (rule Suc.hyps(1))
    show "d = j - Suc i" using Suc.hyps(2) by simp
    show "Suc i \<le> j" using lt by simp
    show "j \<le> length s" by (rule Suc.prems(3))
    show "matchAt (drop k s) = None" if "Suc i \<le> k" "k < j" for k
      using that Suc.prems(1) [of k] by simp
  qed
  finally show ?case .
qed

lemma occurrences_exec_None:
  assumes "exec s i = None" and "i \<le> length s"
  shows "occurrences (drop i s) = []"
proof -
  have "occurrences (drop i s) = occurrences (drop (length s) s)"
  proof (rule occurrences_skip)
    show "matchAt (drop k s) = None" if "i \<le> k" "k < length s" for k
      using exec_None [OF assms(1), of k] that by simp
  qed (use assms(2) in simp_all)
  then show ?thesis by simp
qed

lemma occurrences_exec_Some:
  assumes "exec s i = Some (j, f, c)"
  shows "occurrences (drop i s) = c # occurrences (drop (j + length f) s)"
proof -
  from exec_Some [OF assms] have le: "i \<le> j" and j: "j \<le> length s"
    and m: "matchAt (drop j s) = Some (f, c)"
    and none: "\<And>k. i \<le> k \<Longrightarrow> k < j \<Longrightarrow> matchAt (drop k s) = None"
    by auto
  have "occurrences (drop i s) = occurrences (drop j s)"
    by (rule occurrences_skip [OF none le j])
  moreover from matchAt_decompose [OF m] matchAt_Some(1) [OF m] have "drop j s \<noteq> []"
    by auto
  with m have "occurrences (drop j s) = c # occurrences (drop (length f) (drop j s))"
    by (subst occurrences.simps) simp
  moreover have "drop (length f) (drop j s) = drop (j + length f) s"
    by (intro drop_drop_eq) arith
  ultimately show ?thesis by simp
qed

lemma whileLoop_replacements:
  "whileLoop idx s i acc = (li, ns) \<Longrightarrow> i \<le> length s \<Longrightarrow>
   filter isReplacement ns = filter isReplacement acc @ map (createLink idx) (occurrences (drop i s))"
proof (induction i arbitrary: acc rule: scan_induct [of s])
  case (None i)
  then show ?case by (simp add: whileLoop_None occurrences_exec_None)
next
  case (Some i j f c)
  let ?acc = "(if i < j then acc @ [Text (slice s i j) None] else acc) @ [createLink idx c]"
  from Some.prems have "whileLoop idx s (j + length f) ?acc = (li, ns)"
    by (simp only: whileLoop_Some [OF Some.hyps])
  from Some.IH [OF this] exec_bounds(2) [OF Some.hyps]
  have "filter isReplacement ns =
          filter isReplacement ?acc @ map (createLink idx) (occurrences (drop (j + length f) s))"
    by simp
  moreover have "filter isReplacement ?acc = filter isReplacement acc @ [createLink idx c]"
    by simp
  ultimately show ?case
    by (simp add: occurrences_exec_Some [OF Some.hyps])
qed

lemma newNodesOf_replacements:
  "filter isReplacement (newNodesOf idx s) = map (createLink idx) (occurrences s)"
proof -
  obtain li ns where w: "whileLoop idx s 0 [] = (li, ns)"
    by (cases "whileLoop idx s 0 []")
  from whileLoop_replacements [OF w]
  have "filter isReplacement ns = map (createLink idx) (occurrences s)" by simp
  with w show ?thesis
    by (simp add: newNodesOf_def)
qed


lemma occursAt_shift:
  assumes "occursAt (slice s a b) k n" and "b \<le> length s"
  shows "occursAt s (a + k) n" and "a + k + n + 4 \<le> b"
proof -
  let ?t = "slice s a b"
  from assms(1) have len: "k + n + 4 \<le> length ?t" by (simp add: occursAt_def)
  then have ab: "a + k + n + 4 \<le> b" using assms(2) by (simp add: slice_def)
  show "a + k + n + 4 \<le> b" by (rule ab)
  have sl: "slice ?t x y = slice s (a + x) (a + y)" if "y \<le> k + n + 4" for x y
  proof -
    from that len have "y \<le> b - a" by (simp add: slice_def)
    then have "take (y - x) (drop x (take (b - a) (drop a s))) = take (y - x) (drop (a + x) s)"
      by (simp add: drop_take add.commute min_def)
    then show ?thesis by (simp add: slice_def)
  qed
  have "slice s (a + k) (a + k + 2) = ''[[''"
    using assms(1) sl [of "k + 2" k] by (simp add: occursAt_def add.assoc)
  moreover have "CHR '']'' \<notin> set (slice s (a + k + 2) (a + k + 2 + n))"
    using assms(1) sl [of "k + 2 + n" "k + 2"] by (simp add: occursAt_def add.assoc)
  moreover have "slice s (a + k + 2 + n) (a + k + 4 + n) = '']]''"
    using assms(1) sl [of "k + 4 + n" "k + 2 + n"] by (simp add: occursAt_def add.assoc)
  moreover from assms(1) have "0 < n" by (simp add: occursAt_def)
  ultimately show "occursAt s (a + k) n"
    using ab assms(2) by (simp add: occursAt_def)
qed

lemma gap_no_occurrence:
  assumes "\<And>k. i \<le> k \<Longrightarrow> k < j \<Longrightarrow> matchAt (drop k s) = None" and "j \<le> length s"
  shows "\<not> hasOccurrence (slice s i j)"
proof
  assume "hasOccurrence (slice s i j)"
  then obtain k n where o: "occursAt (slice s i j) k n"
    unfolding hasOccurrence_def by auto
  from occursAt_shift [OF o assms(2)] have o': "occursAt s (i + k) n" and "i + k + n + 4 \<le> j"
    by auto
  then have "i + k < j" by simp
  from assms(1) [OF _ this] occursAt_matchAt [OF o'] show False by simp
qed

lemma literalOk_createLink [simp]: "literalOk (createLink idx c)"
  by (simp add: literalOk_def)

lemma whileLoop_literals:
  "whileLoop idx s i acc = (li, ns) \<Longrightarrow> list_all literalOk acc \<Longrightarrow> i \<le> length s \<Longrightarrow>
   list_all literalOk ns"
proof (induction i arbitrary: acc rule: scan_induct [of s])
  case (None i)
  then show ?case by (simp add: whileLoop_None)
next
  case (Some i j f c)
  let ?acc = "(if i < j then acc @ [Text (slice s i j) None] else acc) @ [createLink idx c]"
  from Some.prems have w: "whileLoop idx s (j + length f) ?acc = (li, ns)"
    by (simp only: whileLoop_Some [OF Some.hyps])
  from exec_Some [OF Some.hyps] have j: "j \<le> length s"
    and none: "\<And>k. i \<le> k \<Longrightarrow> k < j \<Longrightarrow> matchAt (drop k s) = None" by auto
  have "literalOk (Text (slice s i j) None)" if "i < j"
    using that j gap_no_occurrence [OF none j]
    by (simp add: literalOk_def slice_def)
  with Some.prems(2) have "list_all literalOk ?acc"
    by simp
  from Some.IH [OF w this] exec_bounds(2) [OF Some.hyps] show ?case by simp
qed

lemma newNodesOf_literals: "list_all literalOk (newNodesOf idx s)"
proof -
  obtain li ns where w: "whileLoop idx s 0 [] = (li, ns)"
    by (cases "whileLoop idx s 0 []")
  from whileLoop_literals [OF w] have ns: "list_all literalOk ns" by simp
  from whileLoop_lastIndex [OF w] have e: "exec s li = None" by simp
  have "literalOk (Text (sliceFrom s li) None)" if lt: "li < length s"
  proof -
    have "\<not> hasOccurrence (slice s li (length s))"
    proof (rule gap_no_occurrence)
      show "matchAt (drop k s) = None" if "li \<le> k" "k < length s" for k
        using exec_None [OF e, of k] that by simp
    qed simp
    then show ?thesis
      using lt by (simp add: literalOk_def slice_def sliceFrom_def)
  qed
  with w ns show ?thesis
    by (simp add: newNodesOf_def)
qed


lemma replaceMatches_whileLoop:
  "whileLoop idx s i acc = (li, ns) \<Longrightarrow>
   replaceMatches (replacer idx) s i (concat (map render acc)) = concat (map render ns) @ drop li s"
proof (induction i arbitrary: acc rule: scan_induct [of s])
  case (None i)
  then show ?case by (simp add: whileLoop_None replaceMatches_None)
next
  case (Some i j f c)
  let ?acc = "(if i < j then acc @ [Text (slice s i j) None] else acc) @ [createLink idx c]"
  from Some.prems have w: "whileLoop idx s (j + length f) ?acc = (li, ns)"
    by (simp only: whileLoop_Some [OF Some.hyps])
  from exec_Some [OF Some.hyps] have "i \<le> j" by simp
  then have "concat (map render ?acc) = concat (map render acc) @ slice s i j @ replacer idx f c"
    by (simp add: render_createLink [of idx c f] slice_def)
  with Some.IH [OF w] show ?case
    by (simp add: replaceMatches_Some [OF Some.hyps])
qed

lemma processedContent_newNodesOf:
  "processedContent idx s = concat (map render (newNodesOf idx s))"
proof -
  obtain li ns where w: "whileLoop idx s 0 [] = (li, ns)"
    by (cases "whileLoop idx s 0 []")
  from replaceMatches_whileLoop [OF w]
  have p: "processedContent idx s = concat (map render ns) @ drop li s"
    by (simp add: processedContent_def)
  show ?thesis
  proof (cases "li < length s")
    case True
    with w p show ?thesis by (simp add: newNodesOf_def sliceFrom_def)
  next
    case False
    with w p show ?thesis by (simp add: newNodesOf_def)
  qed
qed

section \<open>Properties of the alias index\<close>

lemma registerFile_lookup:
  "registerFile t file k =
     (if k \<noteq> ''__proto__'' \<and> k \<in> set (registeredKeys file) then Some (slug file) else t k)"
  by (auto simp: registerFile_def registeredKeys_def setProp_def Let_def split: option.splits)

lemma find_snoc:
  "find P (xs @ [x]) = (case find P xs of None \<Rightarrow> if P x then Some x else None | Some y \<Rightarrow> Some y)"
  by (induction xs) auto

lemma foldl_registerFile_lookup:
  "foldl registerFile t files k =
     (if k = ''__proto__'' then t k
      else (case find (\<lambda>f. k \<in> set (registeredKeys f)) (rev files) of
              None \<Rightarrow> t k
            | Some f \<Rightarrow> Some (slug f)))"
proof (induction files arbitrary: t)
  case Nil
  then show ?case by simp
next
  case (Cons f fs)
  let ?P = "\<lambda>f. k \<in> set (registeredKeys f)"
  have "foldl registerFile t (f # fs) k = foldl registerFile (registerFile t f) fs k"
    by simp
  also have "\<dots> = (if k = ''__proto__'' then registerFile t f k
      else (case find ?P (rev fs) of None \<Rightarrow> registerFile t f k | Some g \<Rightarrow> Some (slug g)))"
    by (rule Cons.IH)
  also have "\<dots> = (if k = ''__proto__'' then t k
      else (case find ?P (rev (f # fs)) of None \<Rightarrow> t k | Some g \<Rightarrow> Some (slug g)))"
    unfolding registerFile_lookup [of t f k]
    by (simp add: find_snoc split: option.splits)
  finally show ?case .
qed

lemma index_lookup:
  "getTitleToSlugMap files k =
     (if k = ''__proto__'' then None
      else map_option slug (find (\<lambda>f. k \<in> set (registeredKeys f)) (rev files)))"
  by (simp add: getTitleToSlugMap_def foldl_registerFile_lookup split: option.splits)


lemma startsWith_length: "startsWith s pat \<Longrightarrow> length pat \<le> length s"
  unfolding startsWith_def by (metis length_take min.cobounded1)

lemma indexOf_bound: "indexOf s pat = Some i \<Longrightarrow> i + length pat \<le> length s"
proof (induction s arbitrary: i)
  case Nil
  then show ?case by (simp split: if_splits)
next
  case (Cons c cs)
  show ?case
  proof (cases "startsWith (c # cs) pat")
    case True
    with Cons.prems startsWith_length [OF True] show ?thesis by simp
  next
    case False
    with Cons.prems obtain i' where "indexOf cs pat = Some i'" "i = Suc i'" by auto
    with Cons.IH [of i'] show ?thesis by simp
  qed
qed

lemma replace_indexOf:
  "indexOf s pat = Some i \<Longrightarrow> replace s pat rep = take i s @ rep @ drop (i + length pat) s"
proof (induction s arbitrary: i)
  case Nil
  then show ?case by (simp split: if_splits)
next
  case (Cons c cs)
  show ?case
  proof (cases "startsWith (c # cs) pat")
    case True
    with Cons.prems show ?thesis by simp
  next
    case False
    with Cons.prems obtain i' where "indexOf cs pat = Some i'" "i = Suc i'" by auto
    with Cons.IH [of i'] False show ?thesis by simp
  qed
qed

lemma replace_extensionOnly:
  assumes "extensionOnly p"
  shows "replace p ''.md'' '''' = stripExtension p"
proof -
  from assms have i: "indexOf p ''.md'' = Some (length p - 3)"
    by (simp add: extensionOnly_def)
  from indexOf_bound [OF i] have "length p - 3 + 3 = length p" by simp
  with replace_indexOf [OF i, of "''''"] show ?thesis
    by (simp add: stripExtension_def)
qed

lemma split_not_Nil [simp]: "split s sep \<noteq> []"
  by (induction s) (auto split: list.splits)

lemma split_no_sep: "sep \<notin> set s \<Longrightarrow> split s sep = [s]"
  by (induction s) auto

lemma split_sep_length: "sep \<in> set s \<Longrightarrow> 2 \<le> length (split s sep)"
proof (induction s)
  case Nil
  then show ?case by simp
next
  case (Cons c cs)
  show ?case
  proof (cases "c = sep")
    case True
    have "1 \<le> length (split cs sep)"
      using split_not_Nil [of cs sep] by (cases "split cs sep") auto
    with True show ?thesis by simp
  next
    case False
    with Cons.prems have "sep \<in> set cs" by simp
    from Cons.IH [OF this] False show ?thesis
      by (cases "split cs sep") auto
  qed
qed

lemma last_split: "last (split p CHR ''/'') = finalSegment p"
proof (induction p)
  case Nil
  then show ?case by simp
next
  case (Cons c cs)
  show ?case
  proof (cases "c = CHR ''/''")
    case True
    with Cons.IH show ?thesis by simp
  next
    case False
    show ?thesis
    proof (cases "CHR ''/'' \<in> set cs")
      case True
      from split_sep_length [OF True] obtain x y ys where "split cs CHR ''/'' = x # y # ys"
        by (cases "split cs CHR ''/''"; cases "tl (split cs CHR ''/'')") auto
      with Cons.IH False True show ?thesis by simp
    next
      case no: False
      with False show ?thesis by (simp add: split_no_sep)
    qed
  qed
qed

lemma pop_split: "pop (split p CHR ''/'') = Some (finalSegment p)"
  by (simp add: pop_def last_split)

lemma extensionOnly_tl:
  assumes "extensionOnly (c # cs)" and "CHR ''/'' \<in> set (c # cs)"
  shows "extensionOnly cs"
proof -
  from assms(1) have i: "indexOf (c # cs) ''.md'' = Some (length cs - 2)"
    by (simp add: extensionOnly_def)
  have ns: "\<not> startsWith (c # cs) ''.md''"
  proof
    assume sw: "startsWith (c # cs) ''.md''"
    with i have "length cs = 2 \<or> length cs < 2" by auto
    with startsWith_length [OF sw] have "length (c # cs) = 3" by auto
    with sw have "c # cs = ''.md''" by (simp add: startsWith_def)
    with assms(2) show False by simp
  qed
  with i obtain i' where "indexOf cs ''.md'' = Some i'" "Suc i' = length cs - 2" by auto
  then show ?thesis by (simp add: extensionOnly_def)
qed

lemma extensionOnly_finalSegment: "extensionOnly p \<Longrightarrow> extensionOnly (finalSegment p)"
proof (induction p)
  case Nil
  then show ?case by simp
next
  case (Cons c cs)
  show ?case
  proof (cases "CHR ''/'' \<in> set (c # cs)")
    case True
    from Cons.IH [OF extensionOnly_tl [OF Cons.prems True]] True show ?thesis by simp
  next
    case False
    with Cons.prems show ?thesis by simp
  qed
qed

lemma registeredKeys_aliases:
  assumes "extensionOnly (path file)" and "toLowerCase (slug file) = slug file"
  shows "registeredKeys file = aliases file"
  by (simp add: registeredKeys_def aliases_def pop_split assms(2)
      replace_extensionOnly [OF assms(1)]
      replace_extensionOnly [OF extensionOnly_finalSegment [OF assms(1)]])

section \<open>Properties of the reading history\<close>

lemma addToHistory_Items:
  "addToHistory s t now (Items h) =
     Inr (Items (take 5 (\<lparr>ReadingHistoryItem.slug = s, title = t, visitedAt = now\<rparr>
                          # filter (\<lambda>item. ReadingHistoryItem.slug item \<noteq> s) h)))"
  by (simp add: addToHistory_def getHistory_def slice_def MAX_HISTORY_SIZE_def)

lemma addToHistory_fresh:
  "st = NoItem \<or> st = Unparsable \<Longrightarrow>
   addToHistory s t now st =
     Inr (Items [\<lparr>ReadingHistoryItem.slug = s, title = t, visitedAt = now\<rparr>])"
  by (auto simp add: addToHistory_def getHistory_def slice_def MAX_HISTORY_SIZE_def)

lemma addToHistory_NotAnArray:
  "addToHistory s t now NotAnArray = Inl TypeError"
  by (simp add: addToHistory_def getHistory_def)

lemma distinct_map_filter_slug:
  "distinct (map ReadingHistoryItem.slug h) \<Longrightarrow>
   distinct (map ReadingHistoryItem.slug (filter (\<lambda>item. ReadingHistoryItem.slug item \<noteq> s) h))"
  by (induction h) auto

text \<open>Every store the code itself produces is empty or a list of at most five entries
  with different slugs.\<close>

lemma produced_invariant:
  "produced st \<Longrightarrow>
   st = NoItem \<or> (\<exists>h. st = Items h \<and> length h \<le> 5 \<and> distinct (map ReadingHistoryItem.slug h))"
proof (induction rule: produced.induct)
  case empty
  then show ?case by simp
next
  case (add st slug' title' now st')
  from add.IH show ?case
  proof
    assume "st = NoItem"
    with add.hyps(2)
    have "st' = Items [\<lparr>ReadingHistoryItem.slug = slug', title = title', visitedAt = now\<rparr>]"
      by (auto simp: addToHistory_fresh)
    then show ?thesis by simp
  next
    assume "\<exists>h. st = Items h \<and> length h \<le> 5 \<and> distinct (map ReadingHistoryItem.slug h)"
    then obtain h where h: "st = Items h" and d: "distinct (map ReadingHistoryItem.slug h)"
      by auto
    let ?new = "\<lparr>ReadingHistoryItem.slug = slug', title = title', visitedAt = now\<rparr>"
    let ?h' = "take 5 (?new # filter (\<lambda>item. ReadingHistoryItem.slug item \<noteq> slug') h)"
    from add.hyps(2) h have st': "st' = Items ?h'"
      by (simp add: addToHistory_Items)
    have "distinct (map ReadingHistoryItem.slug
            (?new # filter (\<lambda>item. ReadingHistoryItem.slug item \<noteq> slug') h))"
      using distinct_map_filter_slug [OF d] by auto
    then have "distinct (take 5 (map ReadingHistoryItem.slug
            (?new # filter (\<lambda>item. ReadingHistoryItem.slug item \<noteq> slug') h)))"
      by (rule distinct_take)
    then have "distinct (map ReadingHistoryItem.slug ?h')"
      by (simp only: take_map)
    moreover have "length ?h' \<le> 5" by simp
    ultimately show ?thesis using st' by blast
  qed
next
  case (clear st)
  then show ?case by (simp add: clearHistory_def)
qed

text \<open>
  C9 (as amended). After \<open>addToHistory(slug, title)\<close> on any stored history list, the
  stored list is the first five entries of the new entry followed by the old entries
  with another slug: it has at most 5 entries, the entry just added is first, no later
  entry has its slug, and entries beyond the bound are dropped from the end. It has no
  two entries with the same slug when the list stored before had none, as is the case
  for every list the code itself has stored (\<open>produced_invariant\<close>).
\<close>

theorem addToHistory_bounded_front:
  "\<exists>h'. addToHistory s t now (Items h) = Inr (Items h')
      \<and> h' = take 5 (\<lparr>ReadingHistoryItem.slug = s, title = t, visitedAt = now\<rparr>
                        # filter (\<lambda>item. ReadingHistoryItem.slug item \<noteq> s) h)
      \<and> length h' \<le> 5
      \<and> h' \<noteq> []
      \<and> hd h' = \<lparr>ReadingHistoryItem.slug = s, title = t, visitedAt = now\<rparr>
      \<and> s \<notin> set (map ReadingHistoryItem.slug (tl h'))
      \<and> (distinct (map ReadingHistoryItem.slug h) \<longrightarrow> distinct (map ReadingHistoryItem.slug h'))"
proof -
  let ?new = "\<lparr>ReadingHistoryItem.slug = s, title = t, visitedAt = now\<rparr>"
  let ?f = "filter (\<lambda>item. ReadingHistoryItem.slug item \<noteq> s) h"
  let ?h' = "take 5 (?new # ?f)"
  have tl: "tl ?h' = take 4 ?f"
    by (simp add: numeral_eq_Suc)
  have notin: "s \<notin> set (map ReadingHistoryItem.slug (tl ?h'))"
  proof
    assume "s \<in> set (map ReadingHistoryItem.slug (tl ?h'))"
    then obtain item where "item \<in> set (take 4 ?f)" "ReadingHistoryItem.slug item = s"
      unfolding tl by auto
    then show False using in_set_takeD by fastforce
  qed
  have dist: "distinct (map ReadingHistoryItem.slug ?h')"
    if d: "distinct (map ReadingHistoryItem.slug h)"
  proof -
    have "distinct (map ReadingHistoryItem.slug (?new # ?f))"
      using distinct_map_filter_slug [OF d] by auto
    then have "distinct (take 5 (map ReadingHistoryItem.slug (?new # ?f)))"
      by (rule distinct_take)
    then show ?thesis by (simp only: take_map)
  qed
  have "addToHistory s t now (Items h) = Inr (Items ?h')"
    by (rule addToHistory_Items)
  moreover have "length ?h' \<le> 5" by simp
  moreover have "?h' \<noteq> []" by (simp add: numeral_eq_Suc)
  moreover have "hd ?h' = ?new" by (simp add: numeral_eq_Suc)
  ultimately show ?thesis using notin dist by blast
qed

text \<open>The theorem at a full history in which the added slug is already present.\<close>

theorem addToHistory_bounded_front_witness:
  "distinct (map ReadingHistoryItem.slug
      [\<lparr>ReadingHistoryItem.slug = ''a'', title = ''A'', visitedAt = 1\<rparr>,
       \<lparr>ReadingHistoryItem.slug = ''b'', title = ''B'', visitedAt = 2\<rparr>,
       \<lparr>ReadingHistoryItem.slug = ''c'', title = ''C'', visitedAt = 3\<rparr>,
       \<lparr>ReadingHistoryItem.slug = ''d'', title = ''D'', visitedAt = 4\<rparr>,
       \<lparr>ReadingHistoryItem.slug = ''e'', title = ''E'', visitedAt = 5\<rparr>])
   \<and> (\<exists>h'. addToHistory ''c'' ''C again'' 6
          (Items [\<lparr>ReadingHistoryItem.slug = ''a'', title = ''A'', visitedAt = 1\<rparr>,
                  \<lparr>ReadingHistoryItem.slug = ''b'', title = ''B'', visitedAt = 2\<rparr>,
                  \<lparr>ReadingHistoryItem.slug = ''c'', title = ''C'', visitedAt = 3\<rparr>,
                  \<lparr>ReadingHistoryItem.slug = ''d'', title = ''D'', visitedAt = 4\<rparr>,
                  \<lparr>ReadingHistoryItem.slug = ''e'', title = ''E'', visitedAt = 5\<rparr>]) = Inr (Items h')
        \<and> length h' \<le> 5
        \<and> hd h' = \<lparr>ReadingHistoryItem.slug = ''c'', title = ''C again'', visitedAt = 6\<rparr>
        \<and> distinct (map ReadingHistoryItem.slug h'))"
  using addToHistory_bounded_front [of "''c''" "''C again''" 6
      "[\<lparr>ReadingHistoryItem.slug = ''a'', title = ''A'', visitedAt = 1\<rparr>,
        \<lparr>ReadingHistoryItem.slug = ''b'', title = ''B'', visitedAt = 2\<rparr>,
        \<lparr>ReadingHistoryItem.slug = ''c'', title = ''C'', visitedAt = 3\<rparr>,
        \<lparr>ReadingHistoryItem.slug = ''d'', title = ''D'', visitedAt = 4\<rparr>,
        \<lparr>ReadingHistoryItem.slug = ''e'', title = ''E'', visitedAt = 5\<rparr>]"]
  by simp

text \<open>C9 as stated fails: from a stored list in which one slug occurs twice, adding another
  slug leaves both entries in the stored list.\<close>

theorem addToHistory_duplicates_counterexample:
  "addToHistory ''b'' ''B'' 3
     (Items [\<lparr>ReadingHistoryItem.slug = ''a'', title = ''A'', visitedAt = 1\<rparr>,
             \<lparr>ReadingHistoryItem.slug = ''a'', title = ''A'', visitedAt = 2\<rparr>])
   = Inr (Items [\<lparr>ReadingHistoryItem.slug = ''b'', title = ''B'', visitedAt = 3\<rparr>,
                 \<lparr>ReadingHistoryItem.slug = ''a'', title = ''A'', visitedAt = 1\<rparr>,
                 \<lparr>ReadingHistoryItem.slug = ''a'', title = ''A'', visitedAt = 2\<rparr>])
   \<and> \<not> distinct (map ReadingHistoryItem.slug
          [\<lparr>ReadingHistoryItem.slug = ''b'', title = ''B'', visitedAt = 3\<rparr>,
           \<lparr>ReadingHistoryItem.slug = ''a'', title = ''A'', visitedAt = 1\<rparr>,
           \<lparr>ReadingHistoryItem.slug = ''a'', title = ''A'', visitedAt = 2\<rparr>])"
  by (simp add: addToHistory_def getHistory_def slice_def MAX_HISTORY_SIZE_def)

section \<open>The link rewriter on one text node\<close>

lemma occurrences_hasOccurrence: "hasOccurrence s \<Longrightarrow> occurrences s \<noteq> []"
proof -
  assume "hasOccurrence s"
  then have "test s" by (simp add: test_iff_hasOccurrence)
  then obtain j f c where e: "exec s 0 = Some (j, f, c)"
    by (auto simp: test_def)
  from occurrences_exec_Some [OF e] show ?thesis by simp
qed

lemma visitor_no_parent: "visitor titleToSlug s index None = None"
  by (simp add: visitor_def)

lemma no_bracket_no_occurrence:
  assumes "CHR '']'' \<notin> set s"
  shows "\<not> hasOccurrence s"
proof
  assume "hasOccurrence s"
  then obtain i n where "occursAt s i n"
    unfolding hasOccurrence_def by auto
  then have "take 2 (drop (i + 2 + n) s) = '']]''"
    by (simp add: occursAt_def slice_def)
  then have "CHR '']'' \<in> set (take 2 (drop (i + 2 + n) s))" by simp
  then have "CHR '']'' \<in> set s"
    by (meson in_set_dropD in_set_takeD)
  with assms show False by simp
qed

lemma occurrences_no_bracket:
  "c \<in> set (occurrences s) \<Longrightarrow> CHR '']'' \<notin> set c"
proof (induction s rule: occurrences.induct)
  case (1 s)
  show ?case
  proof (cases "s = []")
    case True
    with "1.prems" show ?thesis by simp
  next
    case False
    show ?thesis
    proof (cases "matchAt s")
      case None
      with False "1.prems" have "c \<in> set (occurrences (tl s))"
        by (simp add: occurrences.simps [of s])
      from "1.IH"(1) [OF False None this] show ?thesis .
    next
      case (Some m)
      obtain f l where m: "m = (f, l)" by (cases m)
      with Some False "1.prems" have "c = l \<or> c \<in> set (occurrences (drop (length f) s))"
        by (simp add: occurrences.simps [of s])
      then show ?thesis
      proof
        assume "c = l"
        with matchAt_Some(3) [of s f l] Some m show ?thesis by simp
      next
        assume "c \<in> set (occurrences (drop (length f) s))"
        from "1.IH"(2) [OF False Some m [symmetric] this] show ?thesis .
      qed
    qed
  qed
qed

text \<open>The traversal goes on with the nodes put in place of the text node; none of their text
  nodes holds an occurrence, so the visitor leaves all of them as they are.\<close>

lemma newNodesOf_stable:
  "list_all (\<lambda>v. \<not> test v) (concat (map textValues (newNodesOf idx s)))"
proof -
  have "\<not> test v" if n: "n \<in> set (newNodesOf idx s)" and v: "v \<in> set (textValues n)" for n v
  proof (cases "isReplacement n")
    case True
    with n have "n \<in> set (filter isReplacement (newNodesOf idx s))" by simp
    then obtain c where c: "c \<in> set (occurrences s)" and nc: "n = createLink idx c"
      unfolding newNodesOf_replacements by auto
    from v nc have "v = c"
      by (simp add: createLink_def Let_def split: if_splits)
    with occurrences_no_bracket [OF c] no_bracket_no_occurrence show ?thesis
      by (simp add: test_iff_hasOccurrence)
  next
    case False
    from newNodesOf_literals [of idx s] n have "literalOk n"
      by (simp add: list_all_iff)
    with False have l: "isLiteral n" and no: "\<not> hasOccurrence (textContent n)"
      by (simp_all add: literalOk_def)
    from l v have "v = textContent n"
      by (cases n) (simp_all add: isLiteral_def)
    with no show ?thesis by (simp add: test_iff_hasOccurrence)
  qed
  then show ?thesis
    by (auto simp: list_all_iff)
qed

text \<open>
  C1 (as amended). For every text node with a parent whose value holds at least one
  occurrence of the pattern, the visitor replaces the node, at its index among the
  parent's children, by the replacement sequence. That sequence has exactly one
  replacement node per match, in the order of the matches: the node \<open>createLink\<close> builds
  for the match's inner text, which is also the text the node shows. All its other
  nodes are literal text nodes, not empty and without an occurrence. Concatenating
  the sequence, a literal node as its text and a replacement node as its display text
  put back between \<open>[[\<close> and \<open>]]\<close>, gives the original string.
\<close>

theorem visitor_replaces_text_node:
  assumes "hasOccurrence text"
  shows "visitor titleToSlug text (Some i) (Some children) =
           Some (take i children @ newNodesOf titleToSlug text @ drop (Suc i) children)
       \<and> concat (map rawText (newNodesOf titleToSlug text)) = text
       \<and> filter isReplacement (newNodesOf titleToSlug text)
           = map (createLink titleToSlug) (occurrences text)
       \<and> map textContent (filter isReplacement (newNodesOf titleToSlug text)) = occurrences text
       \<and> occurrences text \<noteq> []
       \<and> list_all literalOk (newNodesOf titleToSlug text)"
proof -
  from assms have "test text" by (simp add: test_iff_hasOccurrence)
  then have "visitor titleToSlug text (Some i) (Some children) =
           Some (take i children @ newNodesOf titleToSlug text @ drop (Suc i) children)"
    by (simp add: visitor_def splice_def)
  moreover have "map textContent (map (createLink titleToSlug) (occurrences text)) = occurrences text"
    by (simp add: comp_def)
  ultimately show ?thesis
    using newNodesOf_rawText [of titleToSlug "text"]
      newNodesOf_replacements [of titleToSlug "text"]
      newNodesOf_literals [of titleToSlug "text"] occurrences_hasOccurrence [OF assms]
    by simp
qed

text \<open>The theorem at a text node with two tokens, one resolved and one not, between two
  siblings.\<close>

theorem visitor_replaces_text_node_witness:
  "hasOccurrence ''[[A]] and [[b]]!''
   \<and> visitor [''a'' \<mapsto> ''a''] ''[[A]] and [[b]]!'' (Some 1)
        (Some [Text ''x'' None, Text ''[[A]] and [[b]]!'' None, Text ''y'' None])
      = Some [Text ''x'' None,
              Link ''/a'' [Text ''A'' None],
              Text '' and '' None,
              Text ''b'' (Some (NodeData ''span'' ''text-red-500 font-mono'')),
              Text ''!'' None,
              Text ''y'' None]
   \<and> concat (map rawText (newNodesOf [''a'' \<mapsto> ''a''] ''[[A]] and [[b]]!'')) = ''[[A]] and [[b]]!''
   \<and> map textContent (filter isReplacement (newNodesOf [''a'' \<mapsto> ''a''] ''[[A]] and [[b]]!''))
      = [''A'', ''b'']
   \<and> occurrences ''[[A]] and [[b]]!'' = [''A'', ''b'']"
proof -
  have h: "hasOccurrence ''[[A]] and [[b]]!''" by code_simp
  have n: "newNodesOf [''a'' \<mapsto> ''a''] ''[[A]] and [[b]]!''
      = [Link ''/a'' [Text ''A'' None], Text '' and '' None,
         Text ''b'' (Some (NodeData ''span'' ''text-red-500 font-mono'')), Text ''!'' None]"
    by code_simp
  have o: "occurrences ''[[A]] and [[b]]!'' = [''A'', ''b'']" by code_simp
  from visitor_replaces_text_node [OF h, of "[''a'' \<mapsto> ''a'']" 1
      "[Text ''x'' None, Text ''[[A]] and [[b]]!'' None, Text ''y'' None]"]
  show ?thesis
    unfolding n o using h by simp
qed

text \<open>C1 as stated fails: the text the replacement sequence shows, every match as its
  display text, has lost the brackets of the token; and a text node without a parent
  is not replaced.\<close>

theorem round_trip_display_text_counterexample:
  "hasOccurrence ''See [[A]] guide''
   \<and> newNodesOf [''a'' \<mapsto> ''a''] ''See [[A]] guide''
        = [Text ''See '' None, Link ''/a'' [Text ''A'' None], Text '' guide'' None]
   \<and> concat (map textContent (newNodesOf [''a'' \<mapsto> ''a''] ''See [[A]] guide'')) = ''See A guide''
   \<and> concat (map textContent (newNodesOf [''a'' \<mapsto> ''a''] ''See [[A]] guide'')) \<noteq> ''See [[A]] guide''
   \<and> visitor [''a'' \<mapsto> ''a''] ''See [[A]] guide'' None None = None"
proof -
  have h: "test ''See [[A]] guide''" by code_simp
  have n: "newNodesOf [''a'' \<mapsto> ''a''] ''See [[A]] guide''
        = [Text ''See '' None, Link ''/a'' [Text ''A'' None], Text '' guide'' None]"
    by code_simp
  show ?thesis
    unfolding n using h by (simp add: test_iff_hasOccurrence visitor_no_parent)
qed

text \<open>
  C8. A text node whose value holds no occurrence of the pattern is left as it is: the
  visitor returns before it touches the parent, whose children stay the same. An
  occurrence is any place where two opening brackets, at least one character other
  than \<open>]\<close> and two closing brackets follow each other, so an unterminated \<open>[[\<close> is none.
\<close>

theorem visitor_leaves_text_without_occurrence:
  "\<not> hasOccurrence text \<Longrightarrow> visitor titleToSlug text index parent = parent"
  by (simp add: visitor_def test_iff_hasOccurrence)

text \<open>The theorem at a text with empty brackets, closing brackets alone and an
  unterminated token.\<close>

theorem visitor_leaves_text_without_occurrence_witness:
  "\<not> hasOccurrence ''[[]] is empty, ]] is alone, [[this is unterminated''
   \<and> visitor [''a'' \<mapsto> ''a''] ''[[]] is empty, ]] is alone, [[this is unterminated'' (Some 1)
        (Some [Text ''x'' None, Text ''[[]] is empty, ]] is alone, [[this is unterminated'' None,
               Text ''y'' None])
      = Some [Text ''x'' None, Text ''[[]] is empty, ]] is alone, [[this is unterminated'' None,
              Text ''y'' None]"
proof -
  have "\<not> test ''[[]] is empty, ]] is alone, [[this is unterminated''" by code_simp
  then have h: "\<not> hasOccurrence ''[[]] is empty, ]] is alone, [[this is unterminated''"
    by (simp add: test_iff_hasOccurrence)
  from visitor_leaves_text_without_occurrence [OF h] h show ?thesis by simp
qed

text \<open>
  C5. With the index that maps \<open>tokyo adventure\<close> and \<open>tokyo-adventure\<close> to
  \<open>tokyo-adventure\<close>, the text node \<open>See [[Tokyo Adventure]] guide\<close> is replaced by the
  literal text \<open>See \<close>, a link to \<open>/tokyo-adventure\<close> that shows \<open>Tokyo Adventure\<close>, and
  the literal text \<open> guide\<close>.
\<close>

theorem tokyo_adventure_resolves:
  "visitor [''tokyo adventure'' \<mapsto> ''tokyo-adventure'', ''tokyo-adventure'' \<mapsto> ''tokyo-adventure'']
     ''See [[Tokyo Adventure]] guide'' (Some 0) (Some [Text ''See [[Tokyo Adventure]] guide'' None])
   = Some [Text ''See '' None, Link ''/tokyo-adventure'' [Text ''Tokyo Adventure'' None],
           Text '' guide'' None]
   \<and> newNodesOf [''tokyo adventure'' \<mapsto> ''tokyo-adventure'', ''tokyo-adventure'' \<mapsto> ''tokyo-adventure'']
     ''See [[Tokyo Adventure]] guide''
   = [Text ''See '' None, Link ''/tokyo-adventure'' [Text ''Tokyo Adventure'' None],
      Text '' guide'' None]
   \<and> map textContent
       (newNodesOf [''tokyo adventure'' \<mapsto> ''tokyo-adventure'', ''tokyo-adventure'' \<mapsto> ''tokyo-adventure'']
          ''See [[Tokyo Adventure]] guide'')
     = [''See '', ''Tokyo Adventure'', '' guide'']"
  by code_simp

section \<open>Resolution of a token\<close>

lemma toLowerCaseChar_idem: "toLowerCaseChar (toLowerCaseChar c) = toLowerCaseChar c"
  by (simp add: toLowerCaseChar_def upperToLower_def)

lemma toLowerCase_idem: "toLowerCase (toLowerCase s) = toLowerCase s"
  by (simp add: toLowerCase_def toLowerCaseChar_idem)

lemma inheritedMethods_not_lower: "k \<in> set inheritedMethods \<Longrightarrow> toLowerCase k \<noteq> k"
  by (auto simp: inheritedMethods_def toLowerCase_def toLowerCaseChar_def upperToLower_def)

text \<open>Of the properties every object inherits, a lower-cased key can only name
  \<open>__proto__\<close> and \<open>constructor\<close>.\<close>

lemma inherited_lower:
  "inherited (toLowerCase s) =
     (if toLowerCase s = ''__proto__'' then ObjectPrototype
      else if toLowerCase s = ''constructor'' then Builtin ''Object'' else Undefined)"
proof -
  have "toLowerCase s \<notin> set inheritedMethods"
    using inheritedMethods_not_lower [of "toLowerCase s"] by (auto simp: toLowerCase_idem)
  then show ?thesis by (simp add: inherited_def)
qed

text \<open>The fallback branch: a token whose lower-cased inner text is not a key of the index
  and is not one of the two inherited names becomes the marked text node.\<close>

lemma createLink_absent:
  assumes "titleToSlug (toLowerCase linkText) = None"
    and "toLowerCase linkText \<noteq> ''constructor''" and "toLowerCase linkText \<noteq> ''__proto__''"
  shows "createLink titleToSlug linkText
           = Text linkText (Some (NodeData ''span'' ''text-red-500 font-mono''))"
  using assms by (simp add: createLink_def getProp_def inherited_lower truthy_def)

lemma createLink_present:
  assumes "titleToSlug (toLowerCase linkText) = Some target" and "target \<noteq> []"
  shows "createLink titleToSlug linkText = Link (''/'' @ target) [Text linkText None]"
  using assms by (simp add: createLink_def getProp_def truthy_def toStr_def)

lemma exec_end: "exec s (length s) = None"
  by (simp add: exec.simps [of s "length s"] exec.simps [of s "Suc (length s)"]
      matchAt_def startsWith_def)

lemma newNodesOf_single_token:
  assumes "body \<noteq> []" and "CHR '']'' \<notin> set body"
  shows "newNodesOf titleToSlug (''[['' @ body @ '']]'') = [createLink titleToSlug body]"
proof -
  let ?s = "''[['' @ body @ '']]''"
  from matchAt_token [OF assms, of "[]"] have m: "matchAt (drop 0 ?s) = Some (?s, body)" by simp
  have e: "exec ?s 0 = Some (0, ?s, body)"
    by (rule exec_first [OF _ _ m]) simp_all
  have "whileLoop titleToSlug ?s 0 []
          = whileLoop titleToSlug ?s (length ?s) [createLink titleToSlug body]"
    using whileLoop_Some [OF e, of titleToSlug "[]"] by simp
  also have "\<dots> = (length ?s, [createLink titleToSlug body])"
    by (rule whileLoop_None [OF exec_end])
  finally show ?thesis
    by (simp add: newNodesOf_def)
qed

text \<open>
  C2 (as amended). Resolution normalizes the inner text of a token by lower-casing it,
  and by nothing else: the node built for an inner text and the node built for its
  lower-cased form link to the same address, or both link nowhere, and each shows its
  own inner text. So for every index \<open>[[Tokyo Adventure]]\<close> resolves as
  \<open>[[tokyo adventure]]\<close> does. Spaces inside the brackets are part of the key.
\<close>

theorem resolution_ignores_case:
  "linkTarget (createLink titleToSlug (toLowerCase linkText))
     = linkTarget (createLink titleToSlug linkText)
   \<and> textContent (createLink titleToSlug linkText) = linkText
   \<and> map linkTarget (newNodesOf titleToSlug ''[[Tokyo Adventure]]'')
       = map linkTarget (newNodesOf titleToSlug ''[[tokyo adventure]]'')
   \<and> linkTarget (createLink titleToSlug linkText)
       = (if truthy (getProp titleToSlug (toLowerCase linkText))
          then Some (''/'' @ toStr (getProp titleToSlug (toLowerCase linkText))) else None)"
proof -
  have a: "linkTarget (createLink titleToSlug t)
       = (if truthy (getProp titleToSlug (toLowerCase t))
          then Some (''/'' @ toStr (getProp titleToSlug (toLowerCase t))) else None)" for t
    by (simp add: createLink_def linkTarget_def Let_def)
  have n1: "newNodesOf titleToSlug ''[[Tokyo Adventure]]''
      = [createLink titleToSlug ''Tokyo Adventure'']"
    using newNodesOf_single_token [of "''Tokyo Adventure''" titleToSlug] by simp
  have n2: "newNodesOf titleToSlug ''[[tokyo adventure]]''
      = [createLink titleToSlug ''tokyo adventure'']"
    using newNodesOf_single_token [of "''tokyo adventure''" titleToSlug] by simp
  have l: "toLowerCase ''Tokyo Adventure'' = ''tokyo adventure''"
    "toLowerCase ''tokyo adventure'' = ''tokyo adventure''"
    by (simp_all add: toLowerCase_def toLowerCaseChar_def upperToLower_def)
  show ?thesis
    unfolding n1 n2 by (simp add: a l toLowerCase_idem)
qed

text \<open>C2 as stated fails: with the index of a corpus that holds \<open>tokyo-adventure.md\<close>,
  titled \<open>Tokyo Adventure\<close>, the token with spaces inside the brackets is not resolved
  and the token without them is.\<close>

theorem untrimmed_token_counterexample:
  "newNodesOf
     (getTitleToSlugMap (getAllMarkdownFiles
        [File ''tokyo-adventure.md''
           \<lparr>FrontMatter.title = Some ''Tokyo Adventure'', description = None, tags = None,
              date = None\<rparr>]))
     ''[[ Tokyo Adventure ]]''
   = [Text '' Tokyo Adventure '' (Some (NodeData ''span'' ''text-red-500 font-mono''))]
   \<and> newNodesOf
     (getTitleToSlugMap (getAllMarkdownFiles
        [File ''tokyo-adventure.md''
           \<lparr>FrontMatter.title = Some ''Tokyo Adventure'', description = None, tags = None,
              date = None\<rparr>]))
     ''[[tokyo adventure]]''
   = [Link ''/tokyo-adventure'' [Text ''tokyo adventure'' None]]"
  by code_simp

text \<open>
  C6 (a defect of the code). A token whose lower-cased inner text is not a key of the
  index becomes the marked text node (\<open>createLink_absent\<close>), with two exceptions:
  \<open>constructor\<close> and \<open>__proto__\<close> are found on the prototype of the index object, so the
  token becomes a link although no document has that alias. Here the index of a
  corpus without the alias \<open>constructor\<close> turns \<open>[[constructor]]\<close> into a link.
\<close>

theorem inherited_property_resolves:
  "getTitleToSlugMap (getAllMarkdownFiles
        [File ''tokyo-adventure.md''
           \<lparr>FrontMatter.title = Some ''Tokyo Adventure'', description = None, tags = None,
              date = None\<rparr>])
     ''constructor'' = None
   \<and> newNodesOf
     (getTitleToSlugMap (getAllMarkdownFiles
        [File ''tokyo-adventure.md''
           \<lparr>FrontMatter.title = Some ''Tokyo Adventure'', description = None, tags = None,
              date = None\<rparr>]))
     ''See [[constructor]]''
   = [Text ''See '' None,
      Link ''/function Object() { [native code] }'' [Text ''constructor'' None]]"
  by code_simp

section \<open>The page renderer and the plugin\<close>

text \<open>
  C10. The page renderer and the plugin classify every token alike, for the index of
  every corpus: both look the lower-cased inner text up in the same index; when the
  value found is truthy the plugin builds a link to it and the renderer writes the
  markdown link to the same address, otherwise the plugin builds the marked text node
  and the renderer writes the span with the same class around the same text. On a whole
  string, the renderer's output is the plugin's replacement sequence written out node
  by node.
\<close>

theorem renderer_agrees_with_plugin:
  \<open>replacer (getTitleToSlugMap files) fullMatch linkText
     = render (createLink (getTitleToSlugMap files) linkText)
   \<and> processedContent (getTitleToSlugMap files) content
     = concat (map render (newNodesOf (getTitleToSlugMap files) content))
   \<and> (if truthy (getProp (getTitleToSlugMap files) (toLowerCase linkText))
      then createLink (getTitleToSlugMap files) linkText
             = Link (''/'' @ toStr (getProp (getTitleToSlugMap files) (toLowerCase linkText)))
                 [Text linkText None]
         \<and> replacer (getTitleToSlugMap files) fullMatch linkText
             = ''['' @ linkText @ ''](/''
                 @ toStr (getProp (getTitleToSlugMap files) (toLowerCase linkText)) @ '')''
      else createLink (getTitleToSlugMap files) linkText
             = Text linkText (Some (NodeData ''span'' ''text-red-500 font-mono''))
         \<and> replacer (getTitleToSlugMap files) fullMatch linkText
             = ''<span class="text-red-500 font-mono">'' @ linkText @ ''</span>'')\<close>
  using processedContent_newNodesOf [of "getTitleToSlugMap files" content]
    render_createLink [of "getTitleToSlugMap files" linkText fullMatch]
  by (simp add: createLink_def replacer_def Let_def)

section \<open>The alias index of a corpus\<close>

lemma find_cong_set: "(\<And>x. x \<in> set xs \<Longrightarrow> P x = Q x) \<Longrightarrow> find P xs = find Q xs"
  by (induction xs) auto

lemma find_append_first:
  "find P (xs @ ys) = (case find P xs of None \<Rightarrow> find P ys | Some x \<Rightarrow> Some x)"
  by (induction xs) auto


text \<open>
  C3 (as amended). For every ordered list of documents whose ids are in lower case and
  whose paths have \<open>.md\<close> as their extension only, the builder registers, per document
  in scan order, exactly these lower-cased aliases, each overwriting any earlier
  mapping of the same key: the title, the id, the path without extension, and the
  final path segment without extension when that is not empty. Nothing is trimmed. So
  a key other than \<open>__proto__\<close> is mapped to the id of the last document that has it
  among these aliases, and is not a key when no document has.
\<close>

theorem getTitleToSlugMap_registers_aliases:
  assumes "list_all (\<lambda>file. extensionOnly (path file) \<and> toLowerCase (slug file) = slug file) files"
    and "k \<noteq> ''__proto__''"
  shows "getTitleToSlugMap files k
           = map_option slug (find (\<lambda>file. k \<in> set (aliases file)) (rev files))
       \<and> (extensionOnly (path file) \<and> toLowerCase (slug file) = slug file \<longrightarrow>
            getTitleToSlugMap (files @ [file]) k
              = (if k \<in> set (aliases file) then Some (slug file) else getTitleToSlugMap files k))"
proof -
  have "find (\<lambda>file. k \<in> set (registeredKeys file)) (rev files)
          = find (\<lambda>file. k \<in> set (aliases file)) (rev files)"
  proof (rule find_cong_set)
    fix x assume "x \<in> set (rev files)"
    with assms(1) have "extensionOnly (path x)" "toLowerCase (slug x) = slug x"
      by (simp_all add: list_all_iff)
    then show "(k \<in> set (registeredKeys x)) = (k \<in> set (aliases x))"
      by (simp only: registeredKeys_aliases)
  qed
  with assms(2) have "getTitleToSlugMap files k
           = map_option slug (find (\<lambda>file. k \<in> set (aliases file)) (rev files))"
    by (simp add: index_lookup)
  moreover have "getTitleToSlugMap (files @ [file]) k
           = (if k \<in> set (registeredKeys file) then Some (slug file) else getTitleToSlugMap files k)"
    using assms(2) by (simp add: getTitleToSlugMap_def registerFile_lookup)
  ultimately show ?thesis
    using registeredKeys_aliases [of "file"] by simp
qed

text \<open>The theorem at a corpus of a file and a directory with one file, for the key
  \<open>tokyo-adventure\<close>, and at that corpus followed by a third file with the same name.\<close>

theorem getTitleToSlugMap_registers_aliases_witness:
  "list_all (\<lambda>file. extensionOnly (path file) \<and> toLowerCase (slug file) = slug file)
     (getAllMarkdownFiles
        [File ''guide.md'' \<lparr>FrontMatter.title = None, description = None, tags = None, date = None\<rparr>,
         Directory ''destinations''
           [File ''tokyo-adventure.md''
              \<lparr>FrontMatter.title = Some ''Tokyo Adventure'', description = None, tags = None,
                 date = None\<rparr>]])
   \<and> ''tokyo-adventure'' \<noteq> ''__proto__''
   \<and> getTitleToSlugMap
       (getAllMarkdownFiles
        [File ''guide.md'' \<lparr>FrontMatter.title = None, description = None, tags = None, date = None\<rparr>,
         Directory ''destinations''
           [File ''tokyo-adventure.md''
              \<lparr>FrontMatter.title = Some ''Tokyo Adventure'', description = None, tags = None,
                 date = None\<rparr>]])
       ''tokyo-adventure''
     = Some ''destinations-tokyo-adventure''
   \<and> extensionOnly (path (scanFile ''notes'' ''tokyo-adventure.md''
        \<lparr>FrontMatter.title = None, description = None, tags = None, date = None\<rparr>))
   \<and> toLowerCase (slug (scanFile ''notes'' ''tokyo-adventure.md''
        \<lparr>FrontMatter.title = None, description = None, tags = None, date = None\<rparr>))
       = slug (scanFile ''notes'' ''tokyo-adventure.md''
        \<lparr>FrontMatter.title = None, description = None, tags = None, date = None\<rparr>)
   \<and> getTitleToSlugMap
       (getAllMarkdownFiles
        [File ''guide.md'' \<lparr>FrontMatter.title = None, description = None, tags = None, date = None\<rparr>,
         Directory ''destinations''
           [File ''tokyo-adventure.md''
              \<lparr>FrontMatter.title = Some ''Tokyo Adventure'', description = None, tags = None,
                 date = None\<rparr>]]
        @ [scanFile ''notes'' ''tokyo-adventure.md''
             \<lparr>FrontMatter.title = None, description = None, tags = None, date = None\<rparr>])
       ''tokyo-adventure''
     = Some ''notes-tokyo-adventure''"
proof -
  let ?files = "getAllMarkdownFiles
        [File ''guide.md'' \<lparr>FrontMatter.title = None, description = None, tags = None, date = None\<rparr>,
         Directory ''destinations''
           [File ''tokyo-adventure.md''
              \<lparr>FrontMatter.title = Some ''Tokyo Adventure'', description = None, tags = None,
                 date = None\<rparr>]]"
  let ?f = "scanFile ''notes'' ''tokyo-adventure.md''
        \<lparr>FrontMatter.title = None, description = None, tags = None, date = None\<rparr>"
  have h1: "list_all (\<lambda>file. extensionOnly (path file) \<and> toLowerCase (slug file) = slug file) ?files"
    by code_simp
  have h2: "''tokyo-adventure'' \<noteq> ''__proto__''" by simp
  have h3: "extensionOnly (path ?f)" by code_simp
  have h4: "toLowerCase (slug ?f) = slug ?f" by code_simp
  have v: "map_option slug (find (\<lambda>file. ''tokyo-adventure'' \<in> set (aliases file)) (rev ?files))
      = Some ''destinations-tokyo-adventure''" by code_simp
  have w: "(if ''tokyo-adventure'' \<in> set (aliases ?f) then Some (slug ?f) else None)
      = Some ''notes-tokyo-adventure''" by code_simp
  from getTitleToSlugMap_registers_aliases [OF h1 h2, of ?f] h3 h4
  have "getTitleToSlugMap ?files ''tokyo-adventure''
          = map_option slug (find (\<lambda>file. ''tokyo-adventure'' \<in> set (aliases file)) (rev ?files))"
    and "getTitleToSlugMap (?files @ [?f]) ''tokyo-adventure''
          = (if ''tokyo-adventure'' \<in> set (aliases ?f) then Some (slug ?f)
             else getTitleToSlugMap ?files ''tokyo-adventure'')"
    by blast+
  with v w h1 h3 h4 show ?thesis
    by (simp split: if_splits)
qed

text \<open>C3 as stated fails. For the file \<open>guide.md\<close> with the title \<open> My Guide \<close>, the builder
  registers the title with its spaces, which is not a trimmed alias, and does not
  register the trimmed title. For the file \<open>.md\<close> of the directory \<open>dir\<close>, the final path
  segment without extension is empty and is not registered.\<close>

theorem unnormalized_alias_counterexample:
  "getTitleToSlugMap
     (getAllMarkdownFiles
        [File ''guide.md''
           \<lparr>FrontMatter.title = Some '' My Guide '', description = None, tags = None, date = None\<rparr>])
     '' my guide '' = Some ''guide''
   \<and> '' my guide '' \<notin> set (specAliases
        (scanFile '''' ''guide.md''
           \<lparr>FrontMatter.title = Some '' My Guide '', description = None, tags = None, date = None\<rparr>))
   \<and> getTitleToSlugMap
     (getAllMarkdownFiles
        [File ''guide.md''
           \<lparr>FrontMatter.title = Some '' My Guide '', description = None, tags = None, date = None\<rparr>])
     ''my guide'' = None
   \<and> ''my guide'' \<in> set (specAliases
        (scanFile '''' ''guide.md''
           \<lparr>FrontMatter.title = Some '' My Guide '', description = None, tags = None, date = None\<rparr>))
   \<and> getTitleToSlugMap
     (getAllMarkdownFiles
        [Directory ''dir''
           [File ''.md'' \<lparr>FrontMatter.title = None, description = None, tags = None, date = None\<rparr>]])
     '''' = None
   \<and> '''' \<in> set (specAliases
        (scanFile ''dir'' ''.md''
           \<lparr>FrontMatter.title = None, description = None, tags = None, date = None\<rparr>))"
  by code_simp

text \<open>Last write wins: a key other than \<open>__proto__\<close> that a document registers, and no
  later document does, is mapped to that document's id, whatever earlier documents
  registered.\<close>

lemma last_write_wins:
  assumes "k \<noteq> ''__proto__''" and "k \<in> set (registeredKeys later)"
    and "list_all (\<lambda>g. k \<notin> set (registeredKeys g)) after"
  shows "getProp (getTitleToSlugMap (before @ later # after)) k = Str (slug later)"
proof -
  let ?P = "\<lambda>f. k \<in> set (registeredKeys f)"
  from assms(3) have "find ?P (rev after) = None"
    by (simp add: find_None_iff list_all_iff)
  with assms(2) have "find ?P (rev (before @ later # after)) = Some later"
    by (simp add: find_append_first)
  with assms(1) show ?thesis
    by (simp add: index_lookup getProp_def)
qed

text \<open>
  C4 (a defect of the code). Two documents with the same alias leave the key mapped to
  the later one's id (\<open>last_write_wins\<close>), unless the alias is \<open>__proto__\<close>: the
  assignment to that key is ignored, the index has no such key, and reading it gives
  the prototype object instead of the later document's id.
\<close>

theorem proto_alias_collision:
  "getProp
     (getTitleToSlugMap
        (getAllMarkdownFiles
           [File ''a.md''
              \<lparr>FrontMatter.title = Some ''__proto__'', description = None, tags = None, date = None\<rparr>,
            File ''b.md''
              \<lparr>FrontMatter.title = Some ''__proto__'', description = None, tags = None, date = None\<rparr>]))
     ''__proto__'' = ObjectPrototype
   \<and> getTitleToSlugMap
        (getAllMarkdownFiles
           [File ''a.md''
              \<lparr>FrontMatter.title = Some ''__proto__'', description = None, tags = None, date = None\<rparr>,
            File ''b.md''
              \<lparr>FrontMatter.title = Some ''__proto__'', description = None, tags = None, date = None\<rparr>])
     ''__proto__'' = None"
  by code_simp

text \<open>A slip the amended claim C7 leaves out: the id key is stored as it is, and every
  lookup lower-cases first, so the id of a file in a directory with capital letters is
  not found.\<close>

lemma capital_id_not_resolved:
  "getTitleToSlugMap (getAllMarkdownFiles
        [Directory ''Dir''
           [File ''Note.md''
              \<lparr>FrontMatter.title = Some ''My Note'', description = None, tags = None, date = None\<rparr>]])
     ''Dir-Note'' = Some ''Dir-Note''
   \<and> createLink
       (getTitleToSlugMap (getAllMarkdownFiles
          [Directory ''Dir''
             [File ''Note.md''
                \<lparr>FrontMatter.title = Some ''My Note'', description = None, tags = None,
                   date = None\<rparr>]]))
       ''Dir-Note''
     = Text ''Dir-Note'' (Some (NodeData ''span'' ''text-red-500 font-mono''))"
  by code_simp




end
